theory Spec2Isabelle
  imports Complex_Main
begin

section \<open>Adaptive Multilevel Splitting: the resampling loop of \<open>AMS.run\<close>\<close>

text \<open>
  The development embeds \<open>scripts/AMS.py\<close>. NumPy arrays of floats become lists of
  \<open>real option\<close>, where \<open>None\<close> is NaN, the marker the source pads trajectories with.
  Every comparison with NaN is false, as in IEEE arithmetic. The values of trajectories
  and scores come from the collaborators and are only compared and copied. The weight
  of line 115 is computed in binary64: each of its three operations is rounded to the
  nearest double (\<open>round64\<close> below).

  The three collaborators of the class (trajectory generator, score function, region
  classifier) and the random generator are not part of the file; they are parameters
  of the model. The trajectory generator and \<open>rng.choice\<close> take the number of the
  call as an extra argument, so that two calls with equal arguments may answer
  differently, as a random source does.
\<close>

subsection \<open>Floats with NaN\<close>

type_synonym fl = "real option"

fun fle :: "fl \<Rightarrow> fl \<Rightarrow> bool" where
  "fle (Some a) (Some b) = (a \<le> b)"
| "fle _ _ = False"

fun fgt :: "fl \<Rightarrow> fl \<Rightarrow> bool" where
  "fgt (Some a) (Some b) = (b < a)"
| "fgt _ _ = False"

fun fge :: "fl \<Rightarrow> fl \<Rightarrow> bool" where
  "fge (Some a) (Some b) = (b \<le> a)"
| "fge _ _ = False"

fun flt :: "fl \<Rightarrow> fl \<Rightarrow> bool" where
  "flt (Some a) (Some b) = (a < b)"
| "flt _ _ = False"

text \<open>The entries of a row that are not NaN, in order.\<close>

fun defined_vals :: "fl list \<Rightarrow> real list" where
  "defined_vals [] = []"
| "defined_vals (None # xs) = defined_vals xs"
| "defined_vals (Some v # xs) = v # defined_vals xs"

text \<open>\<open>np.nanmax\<close> of one row: the maximum of the entries that are not NaN, and NaN
  for a row that has none (NumPy warns and returns NaN).\<close>

definition nanmax :: "fl list \<Rightarrow> fl" where
  "nanmax xs = (case defined_vals xs of [] \<Rightarrow> None | v # vs \<Rightarrow> Some (fold max vs v))"

text \<open>\<open>np.unique\<close> of a vector: the distinct values in ascending order; NaN sorts
  last and all NaNs count as one value.\<close>

definition np_unique :: "fl list \<Rightarrow> fl list" where
  "np_unique q =
     map Some (sort (remdups (defined_vals q))) @ (if None \<in> set q then [None] else [])"

text \<open>\<open>np.flatnonzero\<close> of a boolean vector: the indices of its true entries, ascending.\<close>

definition flatnonzero :: "bool list \<Rightarrow> nat list" where
  "flatnonzero bs = filter (\<lambda>i. bs ! i) [0..<length bs]"

text \<open>\<open>np.argmax\<close> (and \<open>np.nanargmax\<close>) of a boolean row: the index of the first
  true entry, and 0 when no entry is true.\<close>

fun first_true :: "bool list \<Rightarrow> nat option" where
  "first_true [] = None"
| "first_true (b # bs) = (if b then Some 0 else map_option Suc (first_true bs))"

definition argmax_bool :: "bool list \<Rightarrow> nat" where
  "argmax_bool bs = (case first_true bs of None \<Rightarrow> 0 | Some i \<Rightarrow> i)"

datatype error = ValueError | IndexError | ZeroDivisionError

text \<open>\<open>a[i]\<close> on a NumPy vector: \<open>i\<close> from \<open>-len(a)\<close> to \<open>-1\<close> reads from the
  end, anything outside \<open>-len(a) .. len(a) - 1\<close> raises.\<close>

definition py_index :: "'a list \<Rightarrow> int \<Rightarrow> error + 'a" where
  "py_index xs i =
     (if 0 \<le> i \<and> i < int (length xs) then Inr (xs ! nat i)
      else if i < 0 \<and> - int (length xs) \<le> i then Inr (xs ! nat (int (length xs) + i))
      else Inl IndexError)"

subsection \<open>Rounding to binary64\<close>

text \<open>The number of times a value below 1 is doubled until it reaches \<open>[1, 2)\<close>, at most
  \<open>n\<close> times; with \<open>n = 1022\<close> this is the negated binary exponent of a double, the
  subnormal numbers sharing the smallest one.\<close>

fun doublings :: "nat \<Rightarrow> real \<Rightarrow> nat" where
  "doublings 0 x = 0"
| "doublings (Suc n) x = (if x < 1 then Suc (doublings n (2 * x)) else 0)"

text \<open>The number of times a value from 2 on is halved until it reaches \<open>[1, 2)\<close>, at most
  \<open>n\<close> times.\<close>

fun halvings :: "nat \<Rightarrow> real \<Rightarrow> nat" where
  "halvings 0 x = 0"
| "halvings (Suc n) x = (if 2 \<le> x then Suc (halvings n (x / 2)) else 0)"

text \<open>The nearest integer, the even one of two that are equally near.\<close>

definition nearest_even :: "real \<Rightarrow> int" where
  "nearest_even x =
     (let f = \<lfloor>x\<rfloor> in
      if x - of_int f < 1 / 2 then f
      else if 1 / 2 < x - of_int f then f + 1
      else if even f then f else f + 1)"

text \<open>The double nearest to a real \<open>x \<ge> 0\<close>, ties to the even significand: \<open>x\<close> is
  rounded to a multiple of \<open>2 ^ (e - 52)\<close>, \<open>e\<close> its binary exponent and at least
  \<open>-1022\<close>, so that the spacing below \<open>2 ^ -1022\<close> is \<open>2 ^ -1074\<close> and a value of at
  most half of that becomes 0. Beyond the largest double the machine answers \<open>inf\<close>,
  which the reals do not have; the operands of line 115 stay far below it.\<close>

definition round_pos :: "real \<Rightarrow> real" where
  "round_pos x =
     (if x < 1
      then (let d = doublings 1022 x
            in of_int (nearest_even (x * 2 ^ (52 + d))) / 2 ^ (52 + d))
      else (let h = halvings 1023 x
            in of_int (nearest_even (x * 2 ^ 52 / 2 ^ h)) * 2 ^ h / 2 ^ 52))"

definition round64 :: "real \<Rightarrow> real" where
  "round64 x = (if x < 0 then - round_pos (- x) else round_pos x)"

subsection \<open>Trajectories and their natural length\<close>

type_synonym state = "fl list"
type_synonym trajectory = "state list"

text \<open>\<open>np.isnan(traj).any(axis=2)\<close> at one time step.\<close>

definition any_nan :: "state \<Rightarrow> bool" where
  "any_nan s = (None \<in> set s)"

text \<open>Lines 97-98: the natural length of a trajectory of the initial ensemble.\<close>

definition Nt_initial :: "trajectory \<Rightarrow> nat" where
  "Nt_initial tr =
     (let n = argmax_bool (map any_nan tr) in if n = 0 then length tr else n)"

text \<open>Lines 127-128: the natural length of a regenerated continuation.\<close>

definition Nt_regen :: "trajectory \<Rightarrow> nat" where
  "Nt_regen tr =
     (if list_all (\<lambda>s. \<not> any_nan s) tr then length tr else argmax_bool (map any_nan tr))"

subsection \<open>Configuration, collaborators and the state of the loop\<close>

record ams =
  N_traj :: nat
  nc :: int

text \<open>\<open>self.dimension\<close>, set to 2 by the constructor.\<close>

definition dimension :: nat where
  "dimension = 2"

record collab =
  comp_traj :: "nat \<Rightarrow> nat \<Rightarrow> state list \<Rightarrow> trajectory list"
  comp_score :: "state \<Rightarrow> fl"
  is_on :: "state \<Rightarrow> bool"
  is_off :: "state \<Rightarrow> bool"
  rng_choice :: "nat \<Rightarrow> nat list \<Rightarrow> nat \<Rightarrow> nat list"

record ensemble =
  k :: nat
  w :: real
  traj :: "trajectory list"
  score :: "fl list list"
  Nt :: "nat list"
  max_Nt :: nat
  Q :: "fl list"

text \<open>\<open>score[onzone], score[offzone] = 0, 1\<close> on one entry: the second assignment
  wins where both masks are set.\<close>

definition override :: "collab \<Rightarrow> state \<Rightarrow> fl \<Rightarrow> fl" where
  "override c s v = (if is_off c s then Some 1 else if is_on c s then Some 0 else v)"

definition override_row :: "collab \<Rightarrow> trajectory \<Rightarrow> fl list \<Rightarrow> fl list" where
  "override_row c tr sc = map2 (override c) tr sc"

text \<open>Lines 94-106. An empty batch makes \<open>np.max(Nt)\<close> raise, a batch with no time
  step makes \<open>np.argmax\<close> raise.\<close>

definition ams_init :: "collab \<Rightarrow> ams \<Rightarrow> state list \<Rightarrow> error + ensemble" where
  "ams_init c cfg init_state =
     (let tr = comp_traj c 0 (N_traj cfg) init_state in
      if tr = [] \<or> hd tr = [] then Inl ValueError
      else
        let nt = map Nt_initial tr;
            sc = map (\<lambda>row. override_row c row (map (comp_score c) row)) tr
        in Inr \<lparr>k = 0, w = 1, traj = tr, score = sc, Nt = nt,
                max_Nt = fold max nt 0, Q = map nanmax sc\<rparr>)"

subsection \<open>One iteration\<close>

text \<open>Line 108.\<close>

definition loop_cond :: "ams \<Rightarrow> ensemble \<Rightarrow> bool" where
  "loop_cond cfg s = (int (length (np_unique (Q s))) > nc cfg)"

text \<open>Lines 110-112.\<close>

definition threshold :: "ams \<Rightarrow> ensemble \<Rightarrow> error + fl" where
  "threshold cfg s = py_index (np_unique (Q s)) (nc cfg - 1)"

definition idx :: "fl \<Rightarrow> ensemble \<Rightarrow> nat list" where
  "idx thr s = flatnonzero (map (\<lambda>q. fle q thr) (Q s))"

definition other_idx :: "fl \<Rightarrow> ensemble \<Rightarrow> nat list" where
  "other_idx thr s = flatnonzero (map (\<lambda>q. fgt q thr) (Q s))"

definition Q_min :: "fl \<Rightarrow> ensemble \<Rightarrow> fl list" where
  "Q_min thr s = map (\<lambda>i. Q s ! i) (idx thr s)"

text \<open>Line 118. \<open>rng.choice\<close> raises on an empty population unless no sample is drawn.\<close>

definition new_ind :: "collab \<Rightarrow> fl \<Rightarrow> ensemble \<Rightarrow> error + nat list" where
  "new_ind c thr s =
     (if other_idx thr s = [] \<and> idx thr s \<noteq> [] then Inl ValueError
      else Inr (rng_choice c (k s) (other_idx thr s) (length (idx thr s))))"

text \<open>Line 119, for one pair of a clone source and the level of the discarded trajectory.\<close>

definition restart_of :: "ensemble \<Rightarrow> nat \<Rightarrow> fl \<Rightarrow> nat" where
  "restart_of s src q = argmax_bool (map (\<lambda>v. fge v q) (score s ! src))"

definition restart :: "fl \<Rightarrow> ensemble \<Rightarrow> nat list \<Rightarrow> nat list" where
  "restart thr s srcs = map2 (restart_of s) srcs (Q_min thr s)"

text \<open>Line 120.\<close>

definition init_clone :: "ensemble \<Rightarrow> nat list \<Rightarrow> nat list \<Rightarrow> state list" where
  "init_clone s srcs rs = map2 (\<lambda>src r. traj s ! src ! r) srcs rs"

text \<open>Line 131: \<open>Nt[idx] = restart + new_nt\<close>.\<close>

fun scatter :: "'a list \<Rightarrow> nat list \<Rightarrow> 'a list \<Rightarrow> 'a list" where
  "scatter xs (i # is) (v # vs) = scatter (xs[i := v]) is vs"
| "scatter xs _ _ = xs"

text \<open>Lines 136-142: \<open>np.concatenate\<close> with a block of NaN along the time axis.\<close>

definition grow_traj :: "nat \<Rightarrow> trajectory list \<Rightarrow> trajectory list" where
  "grow_traj n tr = map (\<lambda>row. row @ replicate n (replicate dimension None)) tr"

definition grow_score :: "nat \<Rightarrow> fl list list \<Rightarrow> fl list list" where
  "grow_score n sc = map (\<lambda>row. row @ replicate n None) sc"

text \<open>A slice assignment \<open>xs[a:a+len(ys)] = ys\<close>. In the merge both slices have the
  length of their right-hand sides, since the storage was grown first (lemma
  \<open>pass_slices_fit\<close> below), so NumPy neither clips nor broadcasts.\<close>

definition slice_assign :: "'a list \<Rightarrow> nat \<Rightarrow> 'a list \<Rightarrow> 'a list" where
  "slice_assign xs a ys = take a xs @ ys @ drop (a + length ys) xs"

text \<open>Lines 146-157: the body of the merge loop for one regenerated trajectory,
  \<open>t\<close> the slot, \<open>src\<close> its clone source, \<open>r\<close> the restart index, \<open>l\<close> the natural
  length of the continuation \<open>ntr\<close> with scores \<open>nsc\<close>.\<close>

definition merge_one ::
  "collab \<Rightarrow> trajectory list \<times> fl list list \<Rightarrow>
   nat \<times> nat \<times> nat \<times> nat \<times> trajectory \<times> fl list \<Rightarrow> trajectory list \<times> fl list list" where
  "merge_one c ts p =
     (case (ts, p) of ((tr, sc), (t, src, r, l, ntr, nsc)) \<Rightarrow>
        let row1 = slice_assign (tr ! t) 0 (take (r + 1) (tr ! src));
            row2 = slice_assign row1 (r + 1) (take (l - 1) (drop 1 ntr));
            tr' = tr[t := row2];
            srow1 = slice_assign (sc ! t) 0 (take (r + 1) (sc ! src));
            srow2 = slice_assign srow1 (r + 1) (take (l - 1) (drop 1 nsc))
        in (tr', sc[t := override_row c row2 srow2]))"

text \<open>Lines 145-157: the merge loop, in the order of \<open>idx\<close>.\<close>

definition merge ::
  "collab \<Rightarrow> trajectory list \<times> fl list list \<Rightarrow> nat list \<Rightarrow> nat list \<Rightarrow> nat list \<Rightarrow>
   nat list \<Rightarrow> trajectory list \<Rightarrow> fl list list \<Rightarrow> trajectory list \<times> fl list list" where
  "merge c ts ids srcs rs ls ntrs nscs =
     fold (\<lambda>p acc. merge_one c acc p) (zip ids (zip srcs (zip rs (zip ls (zip ntrs nscs))))) ts"

text \<open>Line 115, \<open>w *= (1-len(idx)/self.N_traj)\<close>: the quotient of two integers, the
  difference and the product are each rounded to a double.\<close>

definition new_weight :: "ams \<Rightarrow> fl \<Rightarrow> ensemble \<Rightarrow> real" where
  "new_weight cfg thr s =
     round64 (w s * round64 (1 - round64 (real (length (idx thr s)) / real (N_traj cfg))))"

text \<open>Lines 122-128.\<close>

definition new_traj :: "collab \<Rightarrow> fl \<Rightarrow> ensemble \<Rightarrow> nat list \<Rightarrow> trajectory list" where
  "new_traj c thr s srcs =
     comp_traj c (Suc (k s)) (length (idx thr s)) (init_clone s srcs (restart thr s srcs))"

definition new_nt :: "collab \<Rightarrow> fl \<Rightarrow> ensemble \<Rightarrow> nat list \<Rightarrow> nat list" where
  "new_nt c thr s srcs = map Nt_regen (new_traj c thr s srcs)"

text \<open>Lines 131-132.\<close>

definition new_Nt :: "collab \<Rightarrow> fl \<Rightarrow> ensemble \<Rightarrow> nat list \<Rightarrow> nat list" where
  "new_Nt c thr s srcs =
     scatter (Nt s) (idx thr s) (map2 (+) (restart thr s srcs) (new_nt c thr s srcs))"

definition new_max :: "collab \<Rightarrow> fl \<Rightarrow> ensemble \<Rightarrow> nat list \<Rightarrow> nat" where
  "new_max c thr s srcs = fold max (map (\<lambda>i. new_Nt c thr s srcs ! i) (idx thr s)) 0"

text \<open>Lines 136-141: the storage the merge writes into. \<open>np.concatenate\<close> joins the
  arrays with a block of \<open>N_traj\<close> rows of \<open>dimension\<close> coordinates and raises when they
  have another number of rows or of coordinates (\<open>concat_mismatch\<close>).\<close>

definition concat_mismatch :: "ams \<Rightarrow> ensemble \<Rightarrow> bool" where
  "concat_mismatch cfg s =
     (length (traj s) \<noteq> N_traj cfg \<or> length (score s) \<noteq> N_traj cfg \<or>
      \<not> list_all (list_all (\<lambda>x. length x = dimension)) (traj s))"

definition padded :: "collab \<Rightarrow> fl \<Rightarrow> ensemble \<Rightarrow> nat list \<Rightarrow> trajectory list \<times> fl list list" where
  "padded c thr s srcs =
     (if new_max c thr s srcs > max_Nt s
      then (grow_traj (new_max c thr s srcs - max_Nt s) (traj s),
            grow_score (new_max c thr s srcs - max_Nt s) (score s))
      else (traj s, score s))"

definition merged :: "collab \<Rightarrow> fl \<Rightarrow> ensemble \<Rightarrow> nat list \<Rightarrow> trajectory list \<times> fl list list" where
  "merged c thr s srcs =
     merge c (padded c thr s srcs) (idx thr s) srcs (restart thr s srcs) (new_nt c thr s srcs)
       (new_traj c thr s srcs) (map (map (comp_score c)) (new_traj c thr s srcs))"

text \<open>Lines 119-161: the ensemble after the pass, for the threshold \<open>thr\<close> and the
  clone sources \<open>srcs\<close>.\<close>

definition regenerate :: "collab \<Rightarrow> ams \<Rightarrow> ensemble \<Rightarrow> fl \<Rightarrow> nat list \<Rightarrow> ensemble" where
  "regenerate c cfg s thr srcs =
     \<lparr>k = Suc (k s), w = new_weight cfg thr s,
      traj = fst (merged c thr s srcs), score = snd (merged c thr s srcs),
      Nt = new_Nt c thr s srcs,
      max_Nt = (if new_max c thr s srcs > max_Nt s then new_max c thr s srcs else max_Nt s),
      Q = map nanmax (snd (merged c thr s srcs))\<rparr>"

text \<open>Lines 110-161: one pass through the body of the \<open>while\<close> loop. The division by
  \<open>N_traj\<close> raises for an ensemble size of 0, \<open>np.max\<close> raises when nothing was
  selected, and \<open>np.concatenate\<close> raises when the storage has to grow and does not have
  the shape of the block it is joined with.\<close>

definition ams_step :: "collab \<Rightarrow> ams \<Rightarrow> ensemble \<Rightarrow> error + ensemble" where
  "ams_step c cfg s =
     (case threshold cfg s of
        Inl e \<Rightarrow> Inl e
      | Inr thr \<Rightarrow>
          if N_traj cfg = 0 then Inl ZeroDivisionError
          else
            (case new_ind c thr s of
               Inl e \<Rightarrow> Inl e
             | Inr srcs \<Rightarrow>
                 if idx thr s = [] then Inl ValueError
                 else if new_max c thr s srcs > max_Nt s \<and> concat_mismatch cfg s
                 then Inl ValueError
                 else Inr (regenerate c cfg s thr srcs)))"

subsection \<open>The loop and the result record\<close>

text \<open>Lines 108-161. The loop need not terminate: not returning is \<open>None\<close>.\<close>

partial_function (option) ams_loop :: "collab \<Rightarrow> ams \<Rightarrow> ensemble \<Rightarrow> (error + ensemble) option" where
  "ams_loop c cfg s =
     (if loop_cond cfg s
      then (case ams_step c cfg s of Inl e \<Rightarrow> Some (Inl e) | Inr s' \<Rightarrow> ams_loop c cfg s')
      else Some (Inr s))"

record result =
  probability :: real
  iterations :: nat
  nb_transitions :: nat
  trajectories :: "trajectory list"
  scores :: "fl list list"

text \<open>Line 163.\<close>

definition count_collapse :: "real \<Rightarrow> ensemble \<Rightarrow> nat" where
  "count_collapse zmax s = length (filter (\<lambda>q. fge q (Some zmax)) (Q s))"

text \<open>Lines 166-173, without the wall-clock time. The probability is the expression of
  line 167 over the weight the loop has computed; the rounding of its own product and
  quotient is not modelled.\<close>

definition ams_result :: "ams \<Rightarrow> real \<Rightarrow> ensemble \<Rightarrow> result" where
  "ams_result cfg zmax s =
     \<lparr>probability = w s * real (count_collapse zmax s) / real (N_traj cfg),
      iterations = k s, nb_transitions = count_collapse zmax s,
      trajectories = traj s, scores = score s\<rparr>"

definition run :: "collab \<Rightarrow> ams \<Rightarrow> state list \<Rightarrow> real \<Rightarrow> (error + result) option" where
  "run c cfg init_state zmax =
     (case ams_init c cfg init_state of
        Inl e \<Rightarrow> Some (Inl e)
      | Inr s0 \<Rightarrow>
          (case ams_loop c cfg s0 of
             None \<Rightarrow> None
           | Some (Inl e) \<Rightarrow> Some (Inl e)
           | Some (Inr s) \<Rightarrow> Some (Inr (ams_result cfg zmax s))))"

text \<open>The states of the ensemble at the head of the loop, over all runs from
  \<open>init_state\<close>.\<close>

inductive reach :: "collab \<Rightarrow> ams \<Rightarrow> state list \<Rightarrow> ensemble \<Rightarrow> bool"
  for c :: collab and cfg :: ams and init_state :: "state list" where
  reach_init: "ams_init c cfg init_state = Inr s \<Longrightarrow> reach c cfg init_state s"
| reach_step: "reach c cfg init_state s \<Longrightarrow> loop_cond cfg s \<Longrightarrow> ams_step c cfg s = Inr s'
     \<Longrightarrow> reach c cfg init_state s'"

declare ams_loop.simps [code]

subsection \<open>What the model asks of the collaborators\<close>

text \<open>The trajectory generator answers a request for \<open>n\<close> trajectories with an
  \<open>n \<times> T \<times> dimension\<close> array, \<open>T > 0\<close>.\<close>

definition rect :: "nat \<Rightarrow> nat \<Rightarrow> trajectory list \<Rightarrow> bool" where
  "rect n T b =
     (length b = n \<and> list_all (\<lambda>tr. length tr = T \<and> list_all (\<lambda>x. length x = dimension) tr) b)"

definition gen_ok :: "collab \<Rightarrow> bool" where
  "gen_ok c = (\<forall>j n inits. \<exists>T > 0. rect n T (comp_traj c j n inits))"

text \<open>\<open>rng.choice(a, size=n)\<close> returns \<open>n\<close> elements of \<open>a\<close>.\<close>

definition choice_ok :: "collab \<Rightarrow> bool" where
  "choice_ok c =
     (\<forall>j cands n. length (rng_choice c j cands n) = n \<and>
        (cands \<noteq> [] \<longrightarrow> set (rng_choice c j cands n) \<subseteq> set cands))"

text \<open>Undefined states are in no region and have no score.\<close>

definition nan_ok :: "collab \<Rightarrow> bool" where
  "nan_ok c = (\<forall>x. any_nan x \<longrightarrow> \<not> is_on c x \<and> \<not> is_off c x \<and> comp_score c x = None)"

text \<open>The generator pads at the end only: after an undefined step every step is
  undefined.\<close>

definition gen_pad :: "collab \<Rightarrow> bool" where
  "gen_pad c =
     (\<forall>j n inits. \<forall>tr \<in> set (comp_traj c j n inits).
        \<forall>a b. a \<le> b \<and> b < length tr \<and> any_nan (tr ! a) \<longrightarrow> any_nan (tr ! b))"

text \<open>A path generated from a defined state has a defined first step.\<close>

definition gen_start :: "collab \<Rightarrow> bool" where
  "gen_start c =
     (\<forall>j n inits i. i < n \<and> i < length inits \<and> \<not> any_nan (inits ! i) \<longrightarrow>
        \<not> any_nan (comp_traj c j n inits ! i ! 0))"

definition collab_ok :: "collab \<Rightarrow> bool" where
  "collab_ok c = (gen_ok c \<and> gen_pad c \<and> gen_start c \<and> choice_ok c \<and> nan_ok c)"

subsection \<open>A small instance\<close>

text \<open>States are pairs of a position and a time. Every generated path makes one unit
  step from its initial state and is padded with one undefined step; the score is half
  the position, the start region is \<open>x \<le> 0\<close>, the target region \<open>x \<ge> 2\<close>; the random
  choice takes the first candidate.\<close>

definition demo_path :: "state \<Rightarrow> trajectory" where
  "demo_path x =
     (let p = (if length x = dimension then x else [Some 0, Some 0])
      in [p, map (map_option (\<lambda>v. v + 1)) p, [None, None]])"

definition demo_c :: collab where
  "demo_c =
     \<lparr>comp_traj = (\<lambda>j n inits. map (\<lambda>i. demo_path (if i < length inits then inits ! i else [])) [0..<n]),
      comp_score = (\<lambda>x. if any_nan x then None else map_option (\<lambda>v. v / 2) (hd x)),
      is_on = (\<lambda>x. \<not> any_nan x \<and> fle (hd x) (Some 0)),
      is_off = (\<lambda>x. \<not> any_nan x \<and> fge (hd x) (Some 2)),
      rng_choice = (\<lambda>j cands n. replicate n (hd cands))\<rparr>"

definition demo_cfg :: ams where
  "demo_cfg = \<lparr>N_traj = 2, nc = 1\<rparr>"

definition demo_init :: "state list" where
  "demo_init = [[Some 0, Some 0], [Some 1, Some 0]]"

definition demo_s0 :: ensemble where
  "demo_s0 =
     \<lparr>k = 0, w = 1,
      traj = [[[Some 0, Some 0], [Some 1, Some 1], [None, None]],
              [[Some 1, Some 0], [Some 2, Some 1], [None, None]]],
      score = [[Some 0, Some (1 / 2), None], [Some (1 / 2), Some 1, None]],
      Nt = [2, 2], max_Nt = 2, Q = [Some (1 / 2), Some 1]\<rparr>"

definition demo_s1 :: ensemble where
  "demo_s1 =
     \<lparr>k = 1, w = 1 / 2,
      traj = [[[Some 1, Some 0], [Some 2, Some 1], [None, None]],
              [[Some 1, Some 0], [Some 2, Some 1], [None, None]]],
      score = [[Some (1 / 2), Some 1, None], [Some (1 / 2), Some 1, None]],
      Nt = [2, 2], max_Nt = 2, Q = [Some 1, Some 1]\<rparr>"




text \<open>The fully tied ensemble: three trajectories from one initial state, two
  survivors per level.\<close>

definition tied_cfg :: ams where
  "tied_cfg = \<lparr>N_traj = 3, nc = 2\<rparr>"

definition tied_init :: "state list" where
  "tied_init = [[Some 1, Some 0], [Some 1, Some 0], [Some 1, Some 0]]"

definition tied_s0 :: ensemble where
  "tied_s0 =
     \<lparr>k = 0, w = 1,
      traj = [[[Some 1, Some 0], [Some 2, Some 1], [None, None]],
              [[Some 1, Some 0], [Some 2, Some 1], [None, None]],
              [[Some 1, Some 0], [Some 2, Some 1], [None, None]]],
      score = [[Some (1 / 2), Some 1, None], [Some (1 / 2), Some 1, None],
               [Some (1 / 2), Some 1, None]],
      Nt = [2, 2, 2], max_Nt = 2, Q = [Some 1, Some 1, Some 1]\<rparr>"

subsection \<open>Notions used in the proofs\<close>

text \<open>The row the merge writes into slot \<open>t\<close>: both slice assignments of lines
  148-149 (or 151-152) in one.\<close>

definition spliced :: "'a list \<Rightarrow> 'a list \<Rightarrow> nat \<Rightarrow> nat \<Rightarrow> 'a list \<Rightarrow> 'a list" where
  "spliced row srow r l new =
     slice_assign (slice_assign row 0 (take (r + 1) srow)) (r + 1) (take (l - 1) (drop 1 new))"

text \<open>What holds of one slot of the ensemble, \<open>row\<close> its states, \<open>srow\<close> its scores, \<open>n\<close>
  its natural length, \<open>T\<close> the allocated length: the score override has been applied, an
  undefined state has no score, and every score of the row is matched or exceeded by a
  score before the natural length.\<close>

definition row_inv :: "collab \<Rightarrow> nat \<Rightarrow> nat \<Rightarrow> trajectory \<Rightarrow> fl list \<Rightarrow> bool" where
  "row_inv c T n row srow =
     (length row = T \<and> length srow = T \<and> n \<le> T \<and>
      (\<forall>j < T. override c (row ! j) (srow ! j) = srow ! j \<and>
         (any_nan (row ! j) \<longrightarrow> srow ! j = None) \<and>
         (\<forall>v. srow ! j = Some v \<longrightarrow> (\<exists>j' < n. \<exists>v'. srow ! j' = Some v' \<and> v \<le> v'))))"

definition ens_inv :: "collab \<Rightarrow> ams \<Rightarrow> ensemble \<Rightarrow> bool" where
  "ens_inv c cfg s =
     (\<exists>T > 0. length (traj s) = N_traj cfg \<and> length (score s) = N_traj cfg \<and>
        length (Nt s) = N_traj cfg \<and> Q s = map nanmax (score s) \<and> max_Nt s \<le> T \<and>
        (\<forall>t < N_traj cfg. row_inv c T (Nt s ! t) (traj s ! t) (score s ! t)))"

text \<open>The doubles from 0 to 2: a significand of at most 53 bits over a power of two
  that is at most \<open>2 ^ 1074\<close>.\<close>

definition repr64 :: "real \<Rightarrow> bool" where
  "repr64 g = (\<exists>d m. d \<le> 1022 \<and> 0 \<le> m \<and> m \<le> 2 ^ 53 \<and> g = of_int m / 2 ^ (52 + d))"

text \<open>The ensemble has its size, and the weight is a double in \<open>[0, 1]\<close>.\<close>

definition size_inv :: "ams \<Rightarrow> ensemble \<Rightarrow> bool" where
  "size_inv cfg s =
     (length (score s) = N_traj cfg \<and> length (Q s) = N_traj cfg \<and>
      0 \<le> w s \<and> w s \<le> 1 \<and> repr64 (w s))"

text \<open>A pass of the loop from \<open>s\<close> that reaches the regeneration, with its threshold
  and clone sources.\<close>

definition pass :: "collab \<Rightarrow> ams \<Rightarrow> ensemble \<Rightarrow> fl \<Rightarrow> nat list \<Rightarrow> bool" where
  "pass c cfg s thr srcs =
     (collab_ok c \<and> 1 \<le> nc cfg \<and> ens_inv c cfg s \<and> loop_cond cfg s \<and>
      threshold cfg s = Inr thr \<and> new_ind c thr s = Inr srcs \<and> idx thr s \<noteq> [])"

text \<open>A second generator: in the initial ensemble trajectory 0 lingers near the start for
  four steps, the others make the unit step of the first instance and are padded to four
  steps; regenerated continuations are those of the first instance.\<close>

definition slow_path :: "state \<Rightarrow> trajectory" where
  "slow_path x =
     (let p = (if length x = dimension then x else [Some 0, Some 0]);
          q = map (map_option (\<lambda>v. v + 1 / 2)) p
      in [p, q, q, q])"

definition stale_c :: collab where
  "stale_c =
     demo_c\<lparr>comp_traj := (\<lambda>j n inits.
        map (\<lambda>i. let x = (if i < length inits then inits ! i else [])
                 in if j = 0 then (if i = 0 then slow_path x else demo_path x @ [[None, None]])
                    else demo_path x) [0..<n])\<rparr>"

definition stale_s0 :: ensemble where
  "stale_s0 =
     \<lparr>k = 0, w = 1,
      traj = [[[Some 0, Some 0], [Some (1 / 2), Some (1 / 2)], [Some (1 / 2), Some (1 / 2)],
               [Some (1 / 2), Some (1 / 2)]],
              [[Some 1, Some 0], [Some 2, Some 1], [None, None], [None, None]]],
      score = [[Some 0, Some (1 / 4), Some (1 / 4), Some (1 / 4)],
               [Some (1 / 2), Some 1, None, None]],
      Nt = [4, 2], max_Nt = 4, Q = [Some (1 / 4), Some 1]\<rparr>"

definition stale_s1 :: ensemble where
  "stale_s1 =
     \<lparr>k = 1, w = 1 / 2,
      traj = [[[Some 1, Some 0], [Some 2, Some 1], [Some (1 / 2), Some (1 / 2)],
               [Some (1 / 2), Some (1 / 2)]],
              [[Some 1, Some 0], [Some 2, Some 1], [None, None], [None, None]]],
      score = [[Some (1 / 2), Some 1, Some (1 / 4), Some (1 / 4)],
               [Some (1 / 2), Some 1, None, None]],
      Nt = [2, 2], max_Nt = 4, Q = [Some 1, Some 1]\<rparr>"

subsection \<open>Two instances for the weight\<close>

text \<open>Three trajectories of the first instance, one of them below the other two.\<close>

definition third_cfg :: ams where
  "third_cfg = \<lparr>N_traj = 3, nc = 1\<rparr>"

definition third_init :: "state list" where
  "third_init = [[Some 0, Some 0], [Some 1, Some 0], [Some 1, Some 0]]"

definition third_s0 :: ensemble where
  "third_s0 =
     \<lparr>k = 0, w = 1,
      traj = [[[Some 0, Some 0], [Some 1, Some 1], [None, None]],
              [[Some 1, Some 0], [Some 2, Some 1], [None, None]],
              [[Some 1, Some 0], [Some 2, Some 1], [None, None]]],
      score = [[Some 0, Some (1 / 2), None], [Some (1 / 2), Some 1, None],
               [Some (1 / 2), Some 1, None]],
      Nt = [2, 2, 2], max_Nt = 2, Q = [Some (1 / 2), Some 1, Some 1]\<rparr>"

definition third_s1 :: ensemble where
  "third_s1 = tied_s0\<lparr>k := 1, w := 6004799503160662 / 2 ^ 53\<rparr>"

text \<open>A generator whose continuations stop at once: the initial trajectories make one
  step, trajectory \<open>i\<close> by \<open>i / 2\<close>, and every later trajectory consists of its initial
  state. \<open>idle_s n x\<close> is the ensemble after \<open>n \<ge> 1\<close> passes with weight \<open>x\<close>.\<close>

definition idle_c :: collab where
  "idle_c =
     demo_c\<lparr>comp_traj := (\<lambda>j n inits.
        map (\<lambda>i. let x = (if i < length inits then inits ! i else []);
                     p = (if length x = dimension then x else [Some 0, Some 0])
                 in if j = 0 then [p, map (map_option (\<lambda>v. v + real i / 2)) p] else [p])
          [0..<n])\<rparr>"

definition idle_init :: "state list" where
  "idle_init = [[Some 1, Some 0], [Some 1, Some 0]]"

definition idle_s0 :: ensemble where
  "idle_s0 =
     \<lparr>k = 0, w = 1,
      traj = [[[Some 1, Some 0], [Some 1, Some 0]],
              [[Some 1, Some 0], [Some (3 / 2), Some (1 / 2)]]],
      score = [[Some (1 / 2), Some (1 / 2)], [Some (1 / 2), Some (3 / 4)]],
      Nt = [2, 2], max_Nt = 2, Q = [Some (1 / 2), Some (3 / 4)]\<rparr>"

definition idle_s :: "nat \<Rightarrow> real \<Rightarrow> ensemble" where
  "idle_s n x = idle_s0\<lparr>k := n, w := x, Nt := [1, 2]\<rparr>"

section \<open>Properties\<close>

subsection \<open>Evaluation of the instance\<close>

lemma demo_init_eq: "ams_init demo_c demo_cfg demo_init = Inr demo_s0"
  by code_simp

lemma demo_step_eq: "ams_step demo_c demo_cfg demo_s0 = Inr demo_s1"
  by code_simp

lemma demo_cond0: "loop_cond demo_cfg demo_s0"
  by code_simp

lemma demo_cond1: "\<not> loop_cond demo_cfg demo_s1"
  by code_simp

lemma tied_init_eq: "ams_init demo_c tied_cfg tied_init = Inr tied_s0"
  by code_simp

lemma demo_path_shape:
  "length (demo_path x) = 3 \<and> list_all (\<lambda>y. length y = 2) (demo_path x)"
  by (simp add: demo_path_def Let_def dimension_def)

lemma demo_gen_ok: "gen_ok demo_c"
  unfolding gen_ok_def
proof (intro allI exI [of _ 3] conjI)
  fix j n inits
  show "rect n 3 (comp_traj demo_c j n inits)"
    by (simp add: rect_def demo_c_def dimension_def list_all_iff demo_path_shape [unfolded list_all_iff])
qed simp

lemma demo_choice_ok: "choice_ok demo_c"
  by (auto simp: choice_ok_def demo_c_def)

subsection \<open>Distinct levels and the threshold\<close>

lemma set_defined_vals: "set (defined_vals xs) = {v. Some v \<in> set xs}"
  by (induction xs rule: defined_vals.induct) auto

lemma set_split_nan:
  "set q = Some ` set (defined_vals q) \<union> (if None \<in> set q then {None} else {})"
proof -
  have "x \<in> set q \<longleftrightarrow> x \<in> Some ` set (defined_vals q) \<union> (if None \<in> set q then {None} else {})" for x
    by (cases x) (auto simp: set_defined_vals)
  then show ?thesis by blast
qed

lemma length_np_unique: "length (np_unique q) = card (set q)"
proof -
  let ?D = "set (defined_vals q)"
  have c1: "card (Some ` ?D) = card ?D"
    by (simp add: card_image)
  have len: "length (sort (remdups (defined_vals q))) = card ?D"
    by (simp add: length_remdups_card_conv)
  show ?thesis
  proof (cases "None \<in> set q")
    case True
    then have "set q = insert None (Some ` ?D)"
      using set_split_nan [of q] by auto
    moreover have "None \<notin> Some ` ?D" by auto
    ultimately have "card (set q) = Suc (card ?D)"
      using c1 by (simp add: card_insert_if)
    with True len show ?thesis by (simp add: np_unique_def)
  next
    case False
    then have "set q = Some ` ?D"
      using set_split_nan [of q] by auto
    with False len c1 show ?thesis by (simp add: np_unique_def)
  qed
qed

lemma sorted_distinct_card_less:
  fixes xs :: "real list"
  assumes "sorted xs" "distinct xs" "i < length xs"
  shows "card {u \<in> set xs. u < xs ! i} = i"
proof -
  have ss: "sorted_wrt (<) xs" using assms by (simp add: strict_sorted_iff)
  have "{u \<in> set xs. u < xs ! i} = set (take i xs)"
  proof (rule set_eqI)
    fix u
    show "u \<in> {u \<in> set xs. u < xs ! i} \<longleftrightarrow> u \<in> set (take i xs)"
    proof
      assume "u \<in> {u \<in> set xs. u < xs ! i}"
      then obtain j where j: "j < length xs" "u = xs ! j" "xs ! j < xs ! i"
        by (auto simp: in_set_conv_nth)
      have "j < i"
      proof (rule ccontr)
        assume "\<not> j < i"
        then have "xs ! i \<le> xs ! j"
          using assms(1) j(1) by (simp add: sorted_nth_mono)
        with j(3) show False by simp
      qed
      with j assms(3) show "u \<in> set (take i xs)"
        by (auto simp: in_set_conv_nth)
    next
      assume "u \<in> set (take i xs)"
      then obtain j where j: "j < i" "u = xs ! j"
        using assms(3) by (auto simp: in_set_conv_nth)
      with ss assms(3) have "xs ! j < xs ! i"
        by (simp add: sorted_wrt_nth_less)
      moreover have "u \<in> set xs" using j assms(3) by simp
      ultimately show "u \<in> {u \<in> set xs. u < xs ! i}" using j by simp
    qed
  qed
  moreover have "distinct (take i xs)" using assms by simp
  ultimately show ?thesis using assms by (simp add: distinct_card)
qed

lemma set_flatnonzero: "set (flatnonzero bs) = {i. i < length bs \<and> bs ! i}"
  by (auto simp: flatnonzero_def)

lemma distinct_flatnonzero: "distinct (flatnonzero bs)"
  by (simp add: flatnonzero_def)

lemma fle_Some_iff: "fle x (Some v) \<longleftrightarrow> (\<exists>u. x = Some u \<and> u \<le> v)"
  by (cases x) auto

lemma fgt_Some_iff: "fgt x (Some v) \<longleftrightarrow> (\<exists>u. x = Some u \<and> v < u)"
  by (cases x) auto

lemma fge_Some_iff: "fge x (Some v) \<longleftrightarrow> (\<exists>u. x = Some u \<and> v \<le> u)"
  by (cases x) auto

lemma set_idx: "set (idx thr s) = {i. i < length (Q s) \<and> fle (Q s ! i) thr}"
  by (auto simp: idx_def set_flatnonzero)

lemma set_other_idx: "set (other_idx thr s) = {i. i < length (Q s) \<and> fgt (Q s ! i) thr}"
  by (auto simp: other_idx_def set_flatnonzero)

lemma loop_cond_card: "loop_cond cfg s \<longleftrightarrow> int (card (set (Q s))) > nc cfg"
  by (simp add: loop_cond_def length_np_unique)

lemma threshold_value:
  assumes nc1: "1 \<le> nc cfg" and lc: "loop_cond cfg s"
  shows "\<exists>v. threshold cfg s = Inr (Some v) \<and> Some v \<in> set (Q s) \<and>
             card {u. Some u \<in> set (Q s) \<and> u < v} = nat (nc cfg - 1)"
proof -
  let ?dv = "sort (remdups (defined_vals (Q s)))"
  let ?n = "nat (nc cfg - 1)"
  have len: "length (np_unique (Q s)) = length ?dv + (if None \<in> set (Q s) then 1 else 0)"
    by (simp add: np_unique_def)
  from lc have "nc cfg < int (length (np_unique (Q s)))" by (simp add: loop_cond_def)
  with len nc1 have n: "?n < length ?dv" by (auto split: if_splits)
  then have nu: "?n < length (np_unique (Q s))" using len by simp
  have "np_unique (Q s) ! ?n = Some (?dv ! ?n)"
    using n by (simp add: np_unique_def nth_append)
  with nu nc1 have thr: "threshold cfg s = Inr (Some (?dv ! ?n))"
    by (simp add: threshold_def py_index_def Let_def)
  have "?dv ! ?n \<in> set ?dv" using n by (rule nth_mem)
  then have mem: "Some (?dv ! ?n) \<in> set (Q s)" by (simp add: set_defined_vals)
  have "{u. Some u \<in> set (Q s) \<and> u < ?dv ! ?n} = {u \<in> set ?dv. u < ?dv ! ?n}"
    by (auto simp: set_defined_vals)
  moreover have "card {u \<in> set ?dv. u < ?dv ! ?n} = ?n"
    using n by (intro sorted_distinct_card_less) simp_all
  ultimately show ?thesis using thr mem by simp
qed

subsection \<open>The termination test\<close>

text \<open>A chain of passes \<open>f 0, \<dots>, f n\<close>, each begun because the loop test held, is what
  the loop runs through, and every run of the loop that returns is such a chain.\<close>

lemma chain_loop:
  "(\<forall>i<n. loop_cond cfg (f i) \<and> ams_step c cfg (f i) = Inr (f (Suc i))) \<Longrightarrow>
   ams_loop c cfg (f 0) = ams_loop c cfg (f n)"
proof (induction n)
  case 0
  show ?case by simp
next
  case (Suc n)
  then have "ams_loop c cfg (f 0) = ams_loop c cfg (f n)" by simp
  also from Suc.prems have "loop_cond cfg (f n)" "ams_step c cfg (f n) = Inr (f (Suc n))"
    by simp_all
  then have "ams_loop c cfg (f n) = ams_loop c cfg (f (Suc n))"
    by (subst ams_loop.simps) simp
  finally show ?case .
qed

lemma loop_chain:
  "ams_loop c cfg s = Some y \<Longrightarrow>
   \<exists>f n. f 0 = s \<and> (\<forall>i<n. loop_cond cfg (f i) \<and> ams_step c cfg (f i) = Inr (f (Suc i))) \<and>
     (if loop_cond cfg (f n) then ams_step c cfg (f n) = Inl (projl y) \<and> y = Inl (projl y)
      else y = Inr (f n))"
proof (induction rule: ams_loop.raw_induct [rotated 1, consumes 1, case_names step])
  case (step loop' c cfg s y)
  show ?case
  proof (cases "loop_cond cfg s")
    case False
    with step(2) have "y = Inr s" by simp
    with False show ?thesis
      by (intro exI [of _ "\<lambda>_. s"] exI [of _ 0]) simp
  next
    case True
    show ?thesis
    proof (cases "ams_step c cfg s")
      case (Inl e)
      with True step(2) have "y = Inl e" by simp
      with True Inl show ?thesis
        by (intro exI [of _ "\<lambda>_. s"] exI [of _ 0]) simp
    next
      case (Inr s1)
      with True step(2) have "loop' c cfg s1 = Some y" by simp
      from step(1) [OF this] obtain f n where f: "f 0 = s1"
        "\<forall>i<n. loop_cond cfg (f i) \<and> ams_step c cfg (f i) = Inr (f (Suc i))"
        "if loop_cond cfg (f n) then ams_step c cfg (f n) = Inl (projl y) \<and> y = Inl (projl y)
         else y = Inr (f n)" by blast
      let ?g = "\<lambda>i. case i of 0 \<Rightarrow> s | Suc j \<Rightarrow> f j"
      have "\<forall>i<Suc n. loop_cond cfg (?g i) \<and> ams_step c cfg (?g i) = Inr (?g (Suc i))"
        using True Inr f(1,2) by (auto split: nat.splits)
      moreover have "?g 0 = s" by simp
      moreover have "if loop_cond cfg (?g (Suc n))
        then ams_step c cfg (?g (Suc n)) = Inl (projl y) \<and> y = Inl (projl y)
        else y = Inr (?g (Suc n))" using f(3) by simp
      ultimately show ?thesis by blast
    qed
  qed
qed

lemma ams_step_k: "ams_step c cfg s = Inr s' \<Longrightarrow> k s' = Suc (k s)"
  by (auto simp: ams_step_def regenerate_def split: sum.splits if_splits)

lemma chain_k:
  "(\<forall>i<n. ams_step c cfg (f i) = Inr (f (Suc i))) \<Longrightarrow> k (f n) = k (f 0) + n"
proof (induction n)
  case 0
  show ?case by simp
next
  case (Suc n)
  then have "k (f n) = k (f 0) + n" by simp
  moreover from Suc.prems have "ams_step c cfg (f n) = Inr (f (Suc n))" by simp
  then have "k (f (Suc n)) = Suc (k (f n))" by (rule ams_step_k)
  ultimately show ?case by simp
qed

lemma ams_init_k: "ams_init c cfg init_state = Inr s \<Longrightarrow> k s = 0"
  by (auto simp: ams_init_def Let_def split: if_splits)

text \<open>
  C1. \<open>run\<close> makes another pass exactly when the number of distinct values of \<open>Q\<close> (all
  NaNs counting as one value) exceeds \<open>nc\<close>: it returns the result \<open>r\<close> if and only if
  there are ensembles \<open>f 0, \<dots>, f n\<close>, \<open>f 0\<close> the initial one, each \<open>f i\<close> before the last
  with more than \<open>nc\<close> distinct values and taken to \<open>f (i + 1)\<close> by a pass, the last one
  with at most \<open>nc\<close> distinct values; \<open>r\<close> is computed from the last one and its
  iteration count is the number \<open>n\<close> of passes. It raises \<open>e\<close> if and only if the
  generation of the initial ensemble does, or such a chain ends in an ensemble with
  more than \<open>nc\<close> distinct values whose pass raises \<open>e\<close>. In particular, when the initial
  ensemble has at most \<open>nc\<close> distinct values, \<open>run\<close> returns the initial ensemble as
  generated, with iteration count 0 and weight 1: nothing was cloned or regenerated.
\<close>

theorem loop_runs_iff_distinct_levels_exceed_nc:
  "(run c cfg init_state zmax = Some (Inr r) \<longleftrightarrow>
      (\<exists>f n. ams_init c cfg init_state = Inr (f 0) \<and>
         (\<forall>i<n. nc cfg < int (card (set (Q (f i)))) \<and> ams_step c cfg (f i) = Inr (f (Suc i))) \<and>
         int (card (set (Q (f n)))) \<le> nc cfg \<and>
         r = ams_result cfg zmax (f n) \<and> iterations r = n))
   \<and> (run c cfg init_state zmax = Some (Inl e) \<longleftrightarrow>
        ams_init c cfg init_state = Inl e \<or>
        (\<exists>f n. ams_init c cfg init_state = Inr (f 0) \<and>
           (\<forall>i<n. nc cfg < int (card (set (Q (f i)))) \<and> ams_step c cfg (f i) = Inr (f (Suc i))) \<and>
           nc cfg < int (card (set (Q (f n)))) \<and> ams_step c cfg (f n) = Inl e))
   \<and> (ams_init c cfg init_state = Inr s0 \<and> int (card (set (Q s0))) \<le> nc cfg \<longrightarrow>
        run c cfg init_state zmax = Some (Inr (ams_result cfg zmax s0)) \<and>
        iterations (ams_result cfg zmax s0) = 0 \<and>
        w s0 = 1 \<and>
        trajectories (ams_result cfg zmax s0) = comp_traj c 0 (N_traj cfg) init_state)"
proof (intro conjI impI iffI)
  assume "run c cfg init_state zmax = Some (Inr r)"
  then obtain s0 s where a: "ams_init c cfg init_state = Inr s0"
    "ams_loop c cfg s0 = Some (Inr s)" "r = ams_result cfg zmax s"
    by (auto simp: run_def split: sum.splits option.splits)
  from loop_chain [OF a(2)] obtain f n where f: "f 0 = s0"
    "\<forall>i<n. loop_cond cfg (f i) \<and> ams_step c cfg (f i) = Inr (f (Suc i))"
    "\<not> loop_cond cfg (f n)" "s = f n"
    by (auto split: if_splits)
  from f(2) have "\<forall>i<n. ams_step c cfg (f i) = Inr (f (Suc i))" by simp
  then have "k (f n) = k (f 0) + n" by (rule chain_k)
  with ams_init_k [OF a(1)] f(1) have "k (f n) = n" by simp
  then have "iterations r = n" by (simp add: a(3) f(4) ams_result_def)
  with a f show "\<exists>f n. ams_init c cfg init_state = Inr (f 0) \<and>
         (\<forall>i<n. nc cfg < int (card (set (Q (f i)))) \<and> ams_step c cfg (f i) = Inr (f (Suc i))) \<and>
         int (card (set (Q (f n)))) \<le> nc cfg \<and>
         r = ams_result cfg zmax (f n) \<and> iterations r = n"
    by (intro exI [of _ f] exI [of _ n]) (simp add: loop_cond_card)
next
  assume "\<exists>f n. ams_init c cfg init_state = Inr (f 0) \<and>
         (\<forall>i<n. nc cfg < int (card (set (Q (f i)))) \<and> ams_step c cfg (f i) = Inr (f (Suc i))) \<and>
         int (card (set (Q (f n)))) \<le> nc cfg \<and>
         r = ams_result cfg zmax (f n) \<and> iterations r = n"
  then obtain f n where f: "ams_init c cfg init_state = Inr (f 0)"
    "\<forall>i<n. loop_cond cfg (f i) \<and> ams_step c cfg (f i) = Inr (f (Suc i))"
    "\<not> loop_cond cfg (f n)" "r = ams_result cfg zmax (f n)"
    by (auto simp: loop_cond_card)
  from chain_loop [OF f(2)] have "ams_loop c cfg (f 0) = ams_loop c cfg (f n)" .
  also from f(3) have "\<dots> = Some (Inr (f n))" by (subst ams_loop.simps) simp
  finally show "run c cfg init_state zmax = Some (Inr r)"
    by (simp add: run_def f(1,4))
next
  assume r: "run c cfg init_state zmax = Some (Inl e)"
  show "ams_init c cfg init_state = Inl e \<or>
        (\<exists>f n. ams_init c cfg init_state = Inr (f 0) \<and>
           (\<forall>i<n. nc cfg < int (card (set (Q (f i)))) \<and> ams_step c cfg (f i) = Inr (f (Suc i))) \<and>
           nc cfg < int (card (set (Q (f n)))) \<and> ams_step c cfg (f n) = Inl e)"
  proof (cases "ams_init c cfg init_state")
    case (Inl e')
    with r show ?thesis by (simp add: run_def)
  next
    case (Inr s0)
    with r have l: "ams_loop c cfg s0 = Some (Inl e)"
      by (auto simp: run_def split: sum.splits option.splits)
    from loop_chain [OF l] obtain f n where f: "f 0 = s0"
      "\<forall>i<n. loop_cond cfg (f i) \<and> ams_step c cfg (f i) = Inr (f (Suc i))"
      "loop_cond cfg (f n)" "ams_step c cfg (f n) = Inl e"
      by (auto split: if_splits)
    with Inr have "ams_init c cfg init_state = Inr (f 0) \<and>
           (\<forall>i<n. nc cfg < int (card (set (Q (f i)))) \<and> ams_step c cfg (f i) = Inr (f (Suc i))) \<and>
           nc cfg < int (card (set (Q (f n)))) \<and> ams_step c cfg (f n) = Inl e"
      by (simp add: loop_cond_card)
    then show ?thesis by blast
  qed
next
  assume "ams_init c cfg init_state = Inl e \<or>
        (\<exists>f n. ams_init c cfg init_state = Inr (f 0) \<and>
           (\<forall>i<n. nc cfg < int (card (set (Q (f i)))) \<and> ams_step c cfg (f i) = Inr (f (Suc i))) \<and>
           nc cfg < int (card (set (Q (f n)))) \<and> ams_step c cfg (f n) = Inl e)"
  then show "run c cfg init_state zmax = Some (Inl e)"
  proof
    assume "ams_init c cfg init_state = Inl e"
    then show ?thesis by (simp add: run_def)
  next
    assume "\<exists>f n. ams_init c cfg init_state = Inr (f 0) \<and>
           (\<forall>i<n. nc cfg < int (card (set (Q (f i)))) \<and> ams_step c cfg (f i) = Inr (f (Suc i))) \<and>
           nc cfg < int (card (set (Q (f n)))) \<and> ams_step c cfg (f n) = Inl e"
    then obtain f n where f: "ams_init c cfg init_state = Inr (f 0)"
      "\<forall>i<n. loop_cond cfg (f i) \<and> ams_step c cfg (f i) = Inr (f (Suc i))"
      "loop_cond cfg (f n)" "ams_step c cfg (f n) = Inl e"
      by (auto simp: loop_cond_card)
    from chain_loop [OF f(2)] have "ams_loop c cfg (f 0) = ams_loop c cfg (f n)" .
    also from f(3,4) have "\<dots> = Some (Inl e)" by (subst ams_loop.simps) simp
    finally show ?thesis by (simp add: run_def f(1))
  qed
next
  assume a: "ams_init c cfg init_state = Inr s0 \<and> int (card (set (Q s0))) \<le> nc cfg"
  then have nl: "\<not> loop_cond cfg s0" by (simp add: loop_cond_card)
  then have "ams_loop c cfg s0 = Some (Inr s0)"
    by (subst ams_loop.simps) simp
  with a show "run c cfg init_state zmax = Some (Inr (ams_result cfg zmax s0))"
    by (simp add: run_def)
  from a show "iterations (ams_result cfg zmax s0) = 0"
    by (auto simp: ams_init_def ams_result_def Let_def split: if_splits)
  from a show "w s0 = 1"
    by (auto simp: ams_init_def Let_def split: if_splits)
  from a show "trajectories (ams_result cfg zmax s0) = comp_traj c 0 (N_traj cfg) init_state"
    by (auto simp: ams_init_def ams_result_def Let_def split: if_splits)
qed

lemma tied_card: "int (card (set (Q tied_s0))) \<le> nc tied_cfg"
  by (simp add: tied_s0_def tied_cfg_def)

lemma demo_card0: "nc demo_cfg < int (card (set (Q demo_s0)))"
  using demo_cond0 by (simp add: loop_cond_card)

lemma demo_card1: "int (card (set (Q demo_s1))) \<le> nc demo_cfg"
  using demo_cond1 by (simp add: loop_cond_card)

theorem loop_runs_iff_distinct_levels_exceed_nc_witness:
  "ams_init demo_c demo_cfg demo_init = Inr demo_s0 \<and>
   nc demo_cfg < int (card (set (Q demo_s0))) \<and>
   ams_step demo_c demo_cfg demo_s0 = Inr demo_s1 \<and>
   int (card (set (Q demo_s1))) \<le> nc demo_cfg \<and>
   run demo_c demo_cfg demo_init 1 = Some (Inr (ams_result demo_cfg 1 demo_s1)) \<and>
   iterations (ams_result demo_cfg 1 demo_s1) = 1 \<and>
   ams_init demo_c tied_cfg tied_init = Inr tied_s0 \<and>
   int (card (set (Q tied_s0))) \<le> nc tied_cfg \<and>
   run demo_c tied_cfg tied_init 1 = Some (Inr (ams_result tied_cfg 1 tied_s0)) \<and>
   iterations (ams_result tied_cfg 1 tied_s0) = 0 \<and> w tied_s0 = 1 \<and>
   trajectories (ams_result tied_cfg 1 tied_s0) = comp_traj demo_c 0 (N_traj tied_cfg) tied_init"
proof -
  let ?f = "\<lambda>i::nat. if i = 0 then demo_s0 else demo_s1"
  have it: "iterations (ams_result demo_cfg 1 demo_s1) = 1"
    by (simp add: ams_result_def demo_s1_def)
  have chain: "\<exists>f n. ams_init demo_c demo_cfg demo_init = Inr (f 0) \<and>
      (\<forall>i<n. nc demo_cfg < int (card (set (Q (f i)))) \<and>
         ams_step demo_c demo_cfg (f i) = Inr (f (Suc i))) \<and>
      int (card (set (Q (f n)))) \<le> nc demo_cfg \<and>
      ams_result demo_cfg 1 demo_s1 = ams_result demo_cfg 1 (f n) \<and>
      iterations (ams_result demo_cfg 1 demo_s1) = n"
    using demo_init_eq demo_card0 demo_step_eq demo_card1 it
    by (intro exI [of _ ?f] exI [of _ 1]) simp
  have pass: "run demo_c demo_cfg demo_init 1 = Some (Inr (ams_result demo_cfg 1 demo_s1))"
    using loop_runs_iff_distinct_levels_exceed_nc
      [of demo_c demo_cfg demo_init 1 "ams_result demo_cfg 1 demo_s1"] chain
    by blast
  have none: "run demo_c tied_cfg tied_init 1 = Some (Inr (ams_result tied_cfg 1 tied_s0)) \<and>
      iterations (ams_result tied_cfg 1 tied_s0) = 0 \<and> w tied_s0 = 1 \<and>
      trajectories (ams_result tied_cfg 1 tied_s0) = comp_traj demo_c 0 (N_traj tied_cfg) tied_init"
    using loop_runs_iff_distinct_levels_exceed_nc
      [of demo_c tied_cfg tied_init 1 "ams_result tied_cfg 1 tied_s0" ValueError tied_s0]
      tied_init_eq tied_card
    by blast
  show ?thesis
    using demo_init_eq demo_card0 demo_step_eq demo_card1 pass it tied_init_eq tied_card none
    by (intro conjI) simp_all
qed

subsection \<open>Selection\<close>



subsection \<open>Natural lengths\<close>

text \<open>
  C9. The natural length of a trajectory is the index of its first undefined step, and
  the initial ensemble and the regenerated continuations measure it alike. On a
  trajectory that is undefined from step 0 the two computations of the source differ:
  lines 97-98 answer the allocated length, lines 127-128 answer 0.
\<close>

theorem natural_length_differs_on_undefined_start:
  "Nt_initial [[None, None], [None, None]] = 2 \<and> Nt_regen [[None, None], [None, None]] = 0"
  by (simp add: Nt_initial_def Nt_regen_def argmax_bool_def any_nan_def)

subsection \<open>Sizes and the weight\<close>

lemma ams_step_InrE:
  assumes "ams_step c cfg s = Inr s'"
  obtains thr srcs where "threshold cfg s = Inr thr" "N_traj cfg \<noteq> 0"
    "new_ind c thr s = Inr srcs" "idx thr s \<noteq> []" "s' = regenerate c cfg s thr srcs"
  using assms by (auto simp: ams_step_def split: sum.splits if_splits)

lemma length_merge_one:
  "length (fst (merge_one c ts p)) = length (fst ts)"
  "length (snd (merge_one c ts p)) = length (snd ts)"
  by (auto simp: merge_one_def Let_def split: prod.splits)

lemma length_fold_merge_one:
  "length (fst (fold (\<lambda>p acc. merge_one c acc p) ps ts)) = length (fst ts) \<and>
   length (snd (fold (\<lambda>p acc. merge_one c acc p) ps ts)) = length (snd ts)"
  by (induction ps arbitrary: ts) (simp_all add: length_merge_one)

lemma length_padded:
  "length (fst (padded c thr s srcs)) = length (traj s)"
  "length (snd (padded c thr s srcs)) = length (score s)"
  by (simp_all add: padded_def grow_traj_def grow_score_def)

lemma length_merged:
  "length (fst (merged c thr s srcs)) = length (traj s)"
  "length (snd (merged c thr s srcs)) = length (score s)"
  by (simp_all add: merged_def merge_def length_fold_merge_one length_padded)

lemma length_Q_regenerate: "length (Q (regenerate c cfg s thr srcs)) = length (score s)"
  by (simp add: regenerate_def length_merged)

lemma gen_ok_length: "gen_ok c \<Longrightarrow> length (comp_traj c j n inits) = n"
  unfolding gen_ok_def rect_def by (metis)

lemma ams_init_lengths:
  assumes "gen_ok c" "ams_init c cfg init_state = Inr s"
  shows "length (score s) = N_traj cfg \<and> length (Q s) = N_traj cfg \<and> w s = 1 \<and> k s = 0"
  using assms gen_ok_length [OF assms(1), of 0 "N_traj cfg" init_state]
  by (auto simp: ams_init_def Let_def split: if_splits)

text \<open>Inside the loop some trajectory is not selected.\<close>

lemma idx_proper:
  assumes nc1: "1 \<le> nc cfg" and lc: "loop_cond cfg s" and thr: "threshold cfg s = Inr thr"
  shows "0 < length (idx thr s) \<and> length (idx thr s) < length (Q s)"
proof -
  from threshold_value [OF nc1 lc] thr obtain v where
    v: "thr = Some v" "Some v \<in> set (Q s)"
    "card {u. Some u \<in> set (Q s) \<and> u < v} = nat (nc cfg - 1)" by auto
  let ?L = "{u. Some u \<in> set (Q s) \<and> u < v}"
  let ?LE = "{x \<in> set (Q s). fle x (Some v)}"
  have "?L \<subseteq> set (defined_vals (Q s))"
    by (auto simp: set_defined_vals)
  then have finL: "finite ?L"
    by (rule finite_subset) (rule finite_set)
  have "x \<in> ?LE \<longleftrightarrow> x \<in> Some ` insert v ?L" for x
    using v(2) by (cases x) (auto simp: image_iff)
  then have "?LE = Some ` insert v ?L"
    by blast
  moreover have "card (Some ` insert v ?L) = card (insert v ?L)"
    by (intro card_image inj_onI) simp
  ultimately have "card ?LE = card (insert v ?L)"
    by (simp only:)
  also have "\<dots> = Suc (card ?L)" using finL by simp
  also have "\<dots> = nat (nc cfg)" using v(3) nc1 by simp
  finally have cLE: "card ?LE = nat (nc cfg)" .
  from lc have "nc cfg < int (card (set (Q s)))" by (simp add: loop_cond_card)
  with nc1 have "nat (nc cfg) < card (set (Q s))" by linarith
  with cLE have "?LE \<noteq> set (Q s)" by auto
  then obtain x where x: "x \<in> set (Q s)" "\<not> fle x (Some v)" by auto
  then obtain i where i: "i < length (Q s)" "Q s ! i = x" by (auto simp: in_set_conv_nth)
  with x have ni: "i \<notin> set (idx thr s)" by (simp add: set_idx v(1))
  have "set (idx thr s) \<subseteq> {0..<length (Q s)} - {i}"
    using ni by (auto simp: set_idx)
  then have "card (set (idx thr s)) \<le> card ({0..<length (Q s)} - {i})"
    by (intro card_mono) auto
  also have "\<dots> < length (Q s)" using i(1) by simp
  finally have up: "length (idx thr s) < length (Q s)"
    by (simp add: idx_def distinct_card distinct_flatnonzero)
  from v(2) obtain j where "j < length (Q s)" "Q s ! j = Some v" by (auto simp: in_set_conv_nth)
  then have "j \<in> set (idx thr s)" by (simp add: set_idx v(1))
  then have "idx thr s \<noteq> []" by auto
  with up show ?thesis by simp
qed

lemma weight_factor:
  assumes nc1: "1 \<le> nc cfg" and lc: "loop_cond cfg s" and thr: "threshold cfg s = Inr thr"
    and len: "length (Q s) = N_traj cfg"
  shows "0 < 1 - real (length (idx thr s)) / real (N_traj cfg)"
    and "1 - real (length (idx thr s)) / real (N_traj cfg) < 1"
proof -
  from idx_proper [OF nc1 lc thr] len
  have a: "0 < length (idx thr s)" "length (idx thr s) < N_traj cfg" by simp_all
  then have n: "0 < real (N_traj cfg)" by simp
  from a n show "0 < 1 - real (length (idx thr s)) / real (N_traj cfg)" by simp
  from a n show "1 - real (length (idx thr s)) / real (N_traj cfg) < 1" by simp
qed

text \<open>Rounding: what \<open>doublings\<close> and \<open>nearest_even\<close> compute.\<close>

lemma doublings_le: "doublings n x \<le> n"
  by (induction n arbitrary: x) simp_all

lemma doublings_ge1: "1 \<le> x \<Longrightarrow> doublings n x = 0"
  by (cases n) simp_all

lemma doublings_reach: "doublings n x < n \<Longrightarrow> 1 \<le> x * 2 ^ doublings n x"
proof (induction n arbitrary: x)
  case 0
  then show ?case by simp
next
  case (Suc n)
  show ?case
  proof (cases "x < 1")
    case True
    with Suc.prems have "doublings n (2 * x) < n" by simp
    from Suc.IH [OF this] have "1 \<le> 2 * x * 2 ^ doublings n (2 * x)" .
    also have "\<dots> = x * 2 ^ Suc (doublings n (2 * x))" by simp
    finally show ?thesis using True by simp
  next
    case False
    then show ?thesis by simp
  qed
qed

lemma halvings_lt2: "x < 2 \<Longrightarrow> halvings n x = 0"
  by (cases n) simp_all

lemma half_pow_lt1: "(1::real) / 2 ^ Suc n < 1"
proof -
  have "(1::real) < 2 ^ Suc n" by (rule one_less_power) simp_all
  then show ?thesis by simp
qed

lemma doublings_below: "x < 1 \<Longrightarrow> x * 2 ^ doublings n x < 2"
proof (induction n arbitrary: x)
  case 0
  then show ?case by simp
next
  case (Suc n)
  show ?case
  proof (cases "2 * x < 1")
    case True
    from Suc.IH [OF True] Suc.prems show ?thesis by (simp add: mult.assoc mult.commute mult.left_commute)
  next
    case False
    then have "doublings n (2 * x) = 0" by (simp add: doublings_ge1)
    with Suc.prems show ?thesis by simp
  qed
qed

lemma doublings_pow2: "doublings m (1 / 2 ^ n) = min m n"
proof (induction m arbitrary: n)
  case 0
  then show ?case by simp
next
  case (Suc m)
  show ?case
  proof (cases n)
    case 0
    then show ?thesis by simp
  next
    case (Suc n')
    have "(1::real) / 2 ^ n < 1" unfolding Suc by (rule half_pow_lt1)
    moreover have "2 * (1 / 2 ^ n) = (1::real) / 2 ^ n'" unfolding Suc by simp
    ultimately show ?thesis using Suc.IH [of n'] Suc by simp
  qed
qed

lemma nearest_even_le: "x \<le> of_int M \<Longrightarrow> nearest_even x \<le> M"
  unfolding nearest_even_def Let_def
  by (auto simp: not_less) linarith+

lemma nearest_even_ge: "of_int M \<le> x \<Longrightarrow> M \<le> nearest_even x"
  unfolding nearest_even_def Let_def
  by (auto simp: not_less le_floor_iff) linarith+

lemma nearest_even_int: "nearest_even (of_int m) = m"
  by (simp add: nearest_even_def)

lemma round64_nonneg: "0 \<le> x \<Longrightarrow> 0 \<le> round64 x"
proof -
  assume x: "0 \<le> x"
  have "0 \<le> nearest_even y" if "0 \<le> y" for y
    using nearest_even_ge [of 0 y] that by simp
  then show ?thesis using x
    by (simp add: round64_def round_pos_def Let_def)
qed

lemma round64_one: "round64 1 = 1"
proof -
  have "nearest_even (2 ^ 52) = 2 ^ 52" using nearest_even_int [of "2 ^ 52"] by simp
  then show ?thesis by (simp add: round64_def round_pos_def halvings_lt2)
qed

lemma round64_small:
  assumes "0 \<le> x" "x < 1"
  shows "round64 x = of_int (nearest_even (x * 2 ^ (52 + doublings 1022 x))) / 2 ^ (52 + doublings 1022 x)"
  using assms by (simp add: round64_def round_pos_def Let_def)

lemma repr64_one: "repr64 1"
  unfolding repr64_def by (intro exI [of _ 0] exI [of _ "2 ^ 52"]) simp

lemma repr64_round64:
  assumes "0 \<le> x" "x \<le> 1"
  shows "repr64 (round64 x)"
proof (cases "x = 1")
  case True
  then show ?thesis by (simp add: round64_one repr64_one)
next
  case False
  with assms have x1: "x < 1" by simp
  let ?d = "doublings 1022 x"
  let ?m = "nearest_even (x * 2 ^ (52 + ?d))"
  have "of_int 0 \<le> x * 2 ^ (52 + ?d)" using assms(1) by simp
  then have m0: "0 \<le> ?m" by (rule nearest_even_ge)
  have "x * 2 ^ ?d < 2" using x1 by (rule doublings_below)
  then have "x * 2 ^ ?d * 2 ^ 52 \<le> 2 * 2 ^ 52" by (intro mult_right_mono) simp_all
  then have "x * 2 ^ (52 + ?d) \<le> of_int (2 ^ 53)" by (simp add: power_add mult.commute mult.left_commute)
  then have m1: "?m \<le> 2 ^ 53" by (rule nearest_even_le)
  show ?thesis
    unfolding repr64_def round64_small [OF assms(1) x1]
    using m0 m1 doublings_le [of 1022 x] by blast
qed

lemma round64_le_repr:
  assumes z: "0 \<le> z" "z \<le> g" and g: "g \<le> 1" "repr64 g"
  shows "round64 z \<le> g"
proof (cases "z = 1")
  case True
  with z g show ?thesis by (simp add: round64_one)
next
  case False
  with z g have z1: "z < 1" by simp
  let ?d = "doublings 1022 z"
  from g(2) obtain dg m where dg: "dg \<le> 1022" and m: "0 \<le> m" "m \<le> 2 ^ 53"
    and gm: "g = of_int m / 2 ^ (52 + dg)" by (auto simp: repr64_def)
  have "\<exists>M. g * 2 ^ (52 + ?d) = of_int M"
  proof (cases "dg \<le> ?d")
    case True
    then have "(2::real) ^ (52 + ?d) = 2 ^ (52 + dg) * 2 ^ (?d - dg)"
      by (simp add: power_add [symmetric])
    then have "g * 2 ^ (52 + ?d) = of_int (m * 2 ^ (?d - dg))" by (simp add: gm)
    then show ?thesis ..
  next
    case False
    then have lt: "?d < dg" by simp
    with dg have "?d < 1022" by simp
    then have r: "1 \<le> z * 2 ^ ?d" by (rule doublings_reach)
    have "of_int m \<le> (2::real) ^ 53" using m(2) by (metis of_int_le_iff of_int_numeral of_int_power)
    then have "g \<le> 2 ^ 53 / 2 ^ (52 + dg)" unfolding gm by (simp add: divide_right_mono)
    also have "\<dots> = 2 / 2 ^ dg" by (simp add: power_add)
    also have "\<dots> \<le> 2 / 2 ^ Suc ?d" using lt
      by (intro divide_left_mono power_increasing) simp_all
    also have "\<dots> = 1 / 2 ^ ?d" by simp
    finally have "g * 2 ^ ?d \<le> 1" by (simp add: field_simps)
    moreover have "z * 2 ^ ?d \<le> g * 2 ^ ?d" using z(2) by (simp add: mult_right_mono)
    ultimately have "g * 2 ^ ?d = 1" using r by linarith
    then have "g * 2 ^ (52 + ?d) = of_int (2 ^ 52)" by (simp add: power_add)
    then show ?thesis ..
  qed
  then obtain M where M: "g * 2 ^ (52 + ?d) = of_int M" ..
  have "z * 2 ^ (52 + ?d) \<le> g * 2 ^ (52 + ?d)" using z(2) by (simp add: mult_right_mono)
  then have "nearest_even (z * 2 ^ (52 + ?d)) \<le> M" unfolding M by (rule nearest_even_le)
  then have "of_int (nearest_even (z * 2 ^ (52 + ?d))) \<le> (of_int M :: real)" by simp
  then have "of_int (nearest_even (z * 2 ^ (52 + ?d))) / 2 ^ (52 + ?d) \<le> g"
    unfolding M [symmetric] by (simp add: field_simps)
  then show ?thesis unfolding round64_small [OF z(1) z1] .
qed

lemma round64_le_one: "0 \<le> z \<Longrightarrow> z \<le> 1 \<Longrightarrow> round64 z \<le> 1"
  by (rule round64_le_repr [OF _ _ _ repr64_one]) simp_all

lemma round64_pow2:
  assumes "n \<le> 1074"
  shows "round64 (1 / 2 ^ n) = 1 / 2 ^ n"
proof (cases n)
  case 0
  then show ?thesis by (simp add: round64_one)
next
  case (Suc n')
  let ?d = "min 1022 n"
  have lt: "(1::real) / 2 ^ n < 1" unfolding Suc by (rule half_pow_lt1)
  have le: "n \<le> 52 + ?d" using assms by simp
  then have "(2::real) ^ (52 + ?d) = 2 ^ n * 2 ^ (52 + ?d - n)" by (simp add: power_add [symmetric])
  then have "1 / 2 ^ n * 2 ^ (52 + ?d) = (of_int (2 ^ (52 + ?d - n)) :: real)" by simp
  then have "nearest_even (1 / 2 ^ n * 2 ^ (52 + ?d)) = 2 ^ (52 + ?d - n)"
    by (simp only: nearest_even_int)
  then show ?thesis
    using \<open>(2::real) ^ (52 + ?d) = 2 ^ n * 2 ^ (52 + ?d - n)\<close>
    by (simp add: round64_small [OF _ lt] doublings_pow2)
qed

lemma round64_half_ulp:
  assumes d: "d = 1022" and n: "n = Suc (52 + d)"
  shows "round64 (1 / 2 ^ n) = 0"
proof -
  have lt: "(1::real) / 2 ^ n < 1" unfolding n by (rule half_pow_lt1)
  have "min 1022 n = d" using d n by simp
  then have dd: "doublings 1022 (1 / 2 ^ n) = d" by (simp only: doublings_pow2)
  have "(1::real) / 2 ^ Suc m * 2 ^ m = 1 / 2" for m :: nat by simp
  then have h: "(1::real) / 2 ^ n * 2 ^ (52 + d) = 1 / 2" unfolding n .
  have e: "nearest_even (1 / 2) = 0" by (simp add: nearest_even_def)
  have "round64 (1 / 2 ^ n) = of_int (nearest_even (1 / 2 ^ n * 2 ^ (52 + d))) / 2 ^ (52 + d)"
    using round64_small [OF _ lt] dd by simp
  also have "\<dots> = 0" unfolding h e by simp
  finally show ?thesis .
qed

lemma round64_underflow: "round64 (1 / 2 ^ 1075) = 0"
proof -
  have "(1075::nat) = Suc (52 + 1022)" by simp
  then show ?thesis by (rule round64_half_ulp [OF refl])
qed

text \<open>The ensemble keeps its size, and the weight is a double in \<open>[0, 1]\<close>.\<close>

lemma size_inv_step:
  assumes nc1: "1 \<le> nc cfg" and inv: "size_inv cfg s" and lc: "loop_cond cfg s"
    and st: "ams_step c cfg s = Inr s'"
  shows "size_inv cfg s' \<and> w s' \<le> w s \<and>
         (\<exists>thr. threshold cfg s = Inr thr \<and>
                w s' = round64 (w s * round64 (1 - round64 (real (length (idx thr s)) / real (N_traj cfg)))))"
proof -
  from st obtain thr srcs where thr: "threshold cfg s = Inr thr"
    and s': "s' = regenerate c cfg s thr srcs" by (rule ams_step_InrE)
  from inv have len: "length (Q s) = N_traj cfg" and lsc: "length (score s) = N_traj cfg"
    and w: "0 \<le> w s" "w s \<le> 1" "repr64 (w s)" by (simp_all add: size_inv_def)
  let ?q = "real (length (idx thr s)) / real (N_traj cfg)"
  let ?f = "round64 (1 - round64 ?q)"
  note f = weight_factor [OF nc1 lc thr len]
  from f have q: "0 \<le> ?q" "?q \<le> 1" by simp_all
  have rq: "0 \<le> round64 ?q" "round64 ?q \<le> 1"
    using q by (simp_all add: round64_nonneg round64_le_one)
  then have f01: "0 \<le> ?f" "?f \<le> 1"
    by (simp_all add: round64_nonneg round64_le_one)
  have ws': "w s' = round64 (w s * ?f)"
    by (simp add: s' regenerate_def new_weight_def)
  have p0: "0 \<le> w s * ?f" using w(1) f01(1) by simp
  have "w s * ?f \<le> w s * 1" using f01(2) w(1) by (rule mult_left_mono)
  then have p1: "w s * ?f \<le> w s" by simp
  have le: "w s' \<le> w s" unfolding ws' using p0 p1 w(2,3) by (rule round64_le_repr)
  have pos: "0 \<le> w s'" unfolding ws' using p0 by (rule round64_nonneg)
  have "w s * ?f \<le> 1" using p1 w(2) by simp
  with p0 have rep: "repr64 (w s')" unfolding ws' by (rule repr64_round64)
  have "length (score s') = N_traj cfg" "length (Q s') = N_traj cfg"
    by (simp_all add: s' regenerate_def length_merged lsc)
  moreover have "w s' \<le> 1" using le w(2) by simp
  moreover note pos le rep
  ultimately have "size_inv cfg s' \<and> w s' \<le> w s" by (simp add: size_inv_def)
  with thr ws' show ?thesis by blast
qed

lemma reach_size_inv:
  assumes "gen_ok c" "1 \<le> nc cfg" "reach c cfg init_state s"
  shows "size_inv cfg s"
  using assms(3)
proof (induction rule: reach.induct)
  case (reach_init s)
  with ams_init_lengths [OF assms(1)] show ?case by (simp add: size_inv_def repr64_one)
next
  case (reach_step s s')
  with size_inv_step [OF assms(2)] show ?case by blast
qed

text \<open>Evaluation of the two instances for the weight.\<close>

lemma third_init_eq: "ams_init demo_c third_cfg third_init = Inr third_s0"
  by code_simp

lemma third_cond: "loop_cond third_cfg third_s0"
  by code_simp

lemma third_thr: "threshold third_cfg third_s0 = Inr (Some (1 / 2))"
  by code_simp

lemma third_idx: "idx (Some (1 / 2)) third_s0 = [0]"
  by code_simp

lemma third_step_eq: "ams_step demo_c third_cfg third_s0 = Inr third_s1"
  by code_simp

lemma idle_init_eq: "ams_init idle_c demo_cfg idle_init = Inr idle_s0"
  by code_simp

lemma idle_first: "ams_step idle_c demo_cfg idle_s0 = Inr (idle_s 1 (1 / 2))"
  by code_simp

lemma idle_cond0: "loop_cond demo_cfg idle_s0"
  by code_simp

lemma idle_cond: "loop_cond demo_cfg (idle_s n x)"
  by (simp add: loop_cond_card idle_s_def idle_s0_def demo_cfg_def)

lemma idle_step:
  "ams_step idle_c demo_cfg (idle_s n x) =
     Inr (idle_s (Suc n) (round64 (x * round64 (1 - round64 (1 / 2)))))"
  by code_simp


lemma idle_gen_ok: "gen_ok idle_c"
  unfolding gen_ok_def
proof (intro allI)
  fix j n inits
  show "\<exists>T>0. rect n T (comp_traj idle_c j n inits)"
  proof (cases "j = 0")
    case True
    then have "rect n 2 (comp_traj idle_c j n inits)"
      by (simp add: idle_c_def rect_def list_all_iff Let_def dimension_def)
    then show ?thesis by (intro exI [of _ 2]) simp
  next
    case False
    then have "rect n 1 (comp_traj idle_c j n inits)"
      by (simp add: idle_c_def rect_def list_all_iff Let_def dimension_def)
    then show ?thesis by (intro exI [of _ 1]) simp
  qed
qed

lemma round64_half: "round64 (1 / 2) = 1 / 2"
  using round64_pow2 [of 1] by simp

lemma idle_halves:
  "ams_step idle_c demo_cfg (idle_s n (1 / 2 ^ n)) = Inr (idle_s (Suc n) (round64 (1 / 2 ^ Suc n)))"
proof -
  have h: "round64 (1 - round64 (1 / 2)) = 1 / 2" by (simp add: round64_half)
  have "(1::real) / 2 ^ n * round64 (1 - round64 (1 / 2)) = 1 / 2 ^ Suc n"
    unfolding h by simp
  then show ?thesis by (simp only: idle_step)
qed

lemma idle_reach:
  "1 \<le> n \<Longrightarrow> n \<le> 1074 \<Longrightarrow> reach idle_c demo_cfg idle_init (idle_s n (1 / 2 ^ n))"
proof (induction n)
  case 0
  then show ?case by simp
next
  case (Suc n)
  show ?case
  proof (cases "n = 0")
    case True
    have "reach idle_c demo_cfg idle_init (idle_s 1 (1 / 2))"
      using reach_init [OF idle_init_eq] idle_cond0 idle_first by (rule reach_step)
    with True show ?thesis by simp
  next
    case False
    with Suc have r: "reach idle_c demo_cfg idle_init (idle_s n (1 / 2 ^ n))" by simp
    have "reach idle_c demo_cfg idle_init (idle_s (Suc n) (round64 (1 / 2 ^ Suc n)))"
      using r idle_cond idle_halves by (rule reach_step)
    with round64_pow2 [OF Suc.prems(2)] show ?thesis by simp
  qed
qed

lemma idle_underflow: "reach idle_c demo_cfg idle_init (idle_s 1075 0)"
proof -
  have r: "reach idle_c demo_cfg idle_init (idle_s 1074 (1 / 2 ^ 1074))"
    by (rule idle_reach) simp_all
  have "reach idle_c demo_cfg idle_init (idle_s (Suc 1074) (round64 (1 / 2 ^ Suc 1074)))"
    using r idle_cond idle_halves by (rule reach_step)
  moreover have "Suc 1074 = 1075" by simp
  ultimately have "reach idle_c demo_cfg idle_init (idle_s 1075 (round64 (1 / 2 ^ 1075)))"
    by (simp only:)
  then show ?thesis by (simp only: round64_underflow)
qed

text \<open>
  C4 says that every pass multiplies the weight by exactly \<open>1 - |idx| / N\<close> and that the
  weight stays in \<open>(0, 1]\<close>. Line 115 computes in binary64. With three trajectories of
  which one is selected, the weight after the first pass is the double
  \<open>6004799503160662 / 2 ^ 53\<close> and not \<open>2 / 3\<close>. With two trajectories, \<open>nc = 1\<close> and a
  generator whose continuations stop at once, every pass selects trajectory 0 and
  halves the weight; the pass number 1075 rounds \<open>2 ^ -1075\<close> to 0, and the loop goes on
  with weight 0.
\<close>

theorem weight_is_rounded_and_reaches_zero_counterexample:
  "ams_init demo_c third_cfg third_init = Inr third_s0 \<and> loop_cond third_cfg third_s0 \<and>
   threshold third_cfg third_s0 = Inr (Some (1 / 2)) \<and> idx (Some (1 / 2)) third_s0 = [0] \<and>
   ams_step demo_c third_cfg third_s0 = Inr third_s1 \<and>
   w third_s1 = 6004799503160662 / 2 ^ 53 \<and>
   w third_s1 \<noteq> w third_s0 * (1 - real (length (idx (Some (1 / 2)) third_s0)) / real (N_traj third_cfg)) \<and>
   gen_ok idle_c \<and> 1 \<le> nc demo_cfg \<and> nc demo_cfg < int (N_traj demo_cfg) \<and>
   reach idle_c demo_cfg idle_init (idle_s 1075 0) \<and> loop_cond demo_cfg (idle_s 1075 0) \<and>
   w (idle_s 1075 0) = 0"
proof -
  have "w third_s1 = 6004799503160662 / 2 ^ 53" by (simp add: third_s1_def)
  moreover have "w third_s1 \<noteq>
      w third_s0 * (1 - real (length (idx (Some (1 / 2)) third_s0)) / real (N_traj third_cfg))"
    unfolding third_idx by (simp add: third_s1_def third_s0_def third_cfg_def)
  moreover have "1 \<le> nc demo_cfg" "nc demo_cfg < int (N_traj demo_cfg)"
    by (simp_all add: demo_cfg_def)
  moreover have "w (idle_s 1075 0) = 0" by (simp add: idle_s_def)
  ultimately show ?thesis
    using third_init_eq third_cond third_thr third_idx third_step_eq idle_gen_ok idle_underflow
      idle_cond [of 1075 0]
    by (intro conjI)
qed

text \<open>
  C4, amended. With a generator that honours its contract and \<open>1 \<le> nc\<close>: the weight of
  the initial ensemble is 1; at the head of every pass \<open>0 \<le> w \<le> 1\<close>; a pass replaces \<open>w\<close>
  by the double nearest to the product of \<open>w\<close> and the double nearest to
  \<open>1 - q\<close>, \<open>q\<close> the double nearest to \<open>|idx| / N\<close> and \<open>idx\<close> the trajectories selected
  in that pass; the new weight is not negative and not larger than the old one. (The
  bound \<open>nc < N\<close> is not needed.)
\<close>

theorem weight_starts_at_one_and_decays:
  assumes "gen_ok c" and "1 \<le> nc cfg" and "reach c cfg init_state s"
  shows "(ams_init c cfg init_state = Inr s \<longrightarrow> w s = 1) \<and> 0 \<le> w s \<and> w s \<le> 1 \<and>
         (loop_cond cfg s \<and> ams_step c cfg s = Inr s' \<longrightarrow>
            (\<exists>thr. threshold cfg s = Inr thr \<and>
               w s' = round64 (w s *
                 round64 (1 - round64 (real (length (idx thr s)) / real (N_traj cfg))))) \<and>
            0 \<le> w s' \<and> w s' \<le> w s)"
proof -
  have inv: "size_inv cfg s" using assms by (rule reach_size_inv)
  have "w s = 1" if "ams_init c cfg init_state = Inr s"
    using ams_init_lengths [OF assms(1) that] by simp
  moreover have "(\<exists>thr. threshold cfg s = Inr thr \<and>
               w s' = round64 (w s *
                 round64 (1 - round64 (real (length (idx thr s)) / real (N_traj cfg))))) \<and>
            0 \<le> w s' \<and> w s' \<le> w s"
    if "loop_cond cfg s \<and> ams_step c cfg s = Inr s'"
    using size_inv_step [OF assms(2) inv, of c s'] that by (auto simp: size_inv_def)
  ultimately show ?thesis using inv by (simp add: size_inv_def)
qed

theorem weight_starts_at_one_and_decays_witness:
  "gen_ok demo_c \<and> 1 \<le> nc third_cfg \<and> reach demo_c third_cfg third_init third_s0 \<and>
   ams_init demo_c third_cfg third_init = Inr third_s0 \<and> w third_s0 = 1 \<and>
   loop_cond third_cfg third_s0 \<and> ams_step demo_c third_cfg third_s0 = Inr third_s1 \<and>
   (\<exists>thr. threshold third_cfg third_s0 = Inr thr \<and>
      w third_s1 = round64 (w third_s0 *
        round64 (1 - round64 (real (length (idx thr third_s0)) / real (N_traj third_cfg))))) \<and>
   0 \<le> w third_s1 \<and> w third_s1 \<le> w third_s0"
proof -
  have h: "1 \<le> nc third_cfg" by (simp add: third_cfg_def)
  have r: "reach demo_c third_cfg third_init third_s0"
    using third_init_eq by (rule reach_init)
  show ?thesis
    using weight_starts_at_one_and_decays [OF demo_gen_ok h r, of third_s1]
      demo_gen_ok h r third_init_eq third_cond third_step_eq
    by blast
qed

subsection \<open>The returned estimate\<close>









subsection \<open>Configurations outside the precondition\<close>




subsection \<open>The merge\<close>

lemma merge_one_eq:
  "merge_one c (tr, sc) (t, src, r, l, ntr, nsc) =
     (tr[t := spliced (tr ! t) (tr ! src) r l ntr],
      sc[t := override_row c (spliced (tr ! t) (tr ! src) r l ntr)
                 (spliced (sc ! t) (sc ! src) r l nsc)])"
  by (simp add: merge_one_def spliced_def Let_def)

lemma spliced_eq:
  assumes "r < length srow" "length row = length srow" "l \<le> length new"
  shows "spliced row srow r l new =
           take (Suc r) srow @ take (l - 1) (drop 1 new) @ drop (Suc r + (l - 1)) row"
proof -
  let ?X = "take (Suc r) srow"
  let ?seg = "take (l - 1) (drop 1 new)"
  have lenX: "length ?X = Suc r" using assms(1) by simp
  have lenseg: "length ?seg = l - 1" using assms(3) by simp
  have a: "slice_assign row 0 ?X = ?X @ drop (Suc r) row"
    using lenX by (simp only: slice_assign_def take0 append_Nil add_0)
  have b: "take (Suc r) (?X @ drop (Suc r) row) = ?X"
    using lenX by (simp del: take_Suc)
  have c: "drop (Suc r + length ?seg) (?X @ drop (Suc r) row) = drop (Suc r + (l - 1)) row"
    using lenX lenseg by (simp del: take_Suc add: add.commute)
  show ?thesis
    unfolding spliced_def slice_assign_def [of _ "r + 1"] 
    using a b c by (simp del: take_Suc)
qed

lemma length_spliced:
  assumes "r < length srow" "length row = length srow" "l \<le> length new" "r + l \<le> length row"
  shows "length (spliced row srow r l new) = length row"
proof -
  have "length (take (l - 1) (drop 1 new)) = l - 1" using assms(3) by simp
  moreover have "length (take (Suc r) srow) = Suc r" using assms(1) by simp
  moreover have "length (drop (Suc r + (l - 1)) row) = length row - (Suc r + (l - 1))" by simp
  ultimately have "length (spliced row srow r l new) = Suc r + (l - 1) + (length row - (Suc r + (l - 1)))"
    unfolding spliced_eq [OF assms(1-3)] by (simp only: length_append)
  also have "\<dots> = length row" using assms(1,2,4) by arith
  finally show ?thesis .
qed

lemma spliced_prefix:
  assumes "r < length srow" "length row = length srow" "l \<le> length new" "j \<le> r"
  shows "spliced row srow r l new ! j = srow ! j"
proof -
  have "length (take (Suc r) srow) = Suc r" using assms(1) by simp
  with assms(4) have "(take (Suc r) srow @ take (l - 1) (drop 1 new) @ drop (Suc r + (l - 1)) row) ! j
      = take (Suc r) srow ! j"
    by (simp only: nth_append) simp
  also have "\<dots> = srow ! j" using assms(4) by simp
  finally show ?thesis unfolding spliced_eq [OF assms(1-3)] .
qed

lemma spliced_middle:
  assumes "r < length srow" "length row = length srow" "l \<le> length new" "r < j" "j < r + l"
  shows "spliced row srow r l new ! j = new ! (j - r)"
proof -
  let ?X = "take (Suc r) srow"
  let ?seg = "take (l - 1) (drop 1 new)"
  have lenX: "length ?X = Suc r" using assms(1) by simp
  have lenseg: "length ?seg = l - 1" using assms(3) by simp
  have j1: "\<not> j < length ?X" using assms(4) lenX by simp
  have j2: "j - length ?X < length ?seg" using assms(4,5) lenX lenseg by simp
  have "(?X @ ?seg @ drop (Suc r + (l - 1)) row) ! j = ?seg ! (j - Suc r)"
    using j1 j2 lenX by (simp only: nth_append if_False if_True)
  also have "\<dots> = drop 1 new ! (j - Suc r)"
    using j2 lenX lenseg by simp
  also have "\<dots> = new ! (j - r)"
    using assms(3,4,5) by (simp add: Suc_diff_Suc)
  finally show ?thesis unfolding spliced_eq [OF assms(1-3)] .
qed

lemma spliced_tail:
  assumes "r < length srow" "length row = length srow" "l \<le> length new" "0 < l" "r + l \<le> j"
    "j < length row"
  shows "spliced row srow r l new ! j = row ! j"
proof -
  let ?X = "take (Suc r) srow"
  let ?seg = "take (l - 1) (drop 1 new)"
  have lenX: "length ?X = Suc r" using assms(1) by simp
  have lenseg: "length ?seg = l - 1" using assms(3) by simp
  have j1: "\<not> j < length ?X" using assms(4,5) lenX by simp
  have j2: "\<not> j - length ?X < length ?seg" using assms(4,5) lenX lenseg by simp
  have "(?X @ ?seg @ drop (Suc r + (l - 1)) row) ! j
      = drop (Suc r + (l - 1)) row ! (j - length ?X - length ?seg)"
    using j1 j2 by (simp only: nth_append if_False)
  also have "\<dots> = row ! (Suc r + (l - 1) + (j - length ?X - length ?seg))"
    using assms(4,5,6) lenX lenseg by (intro nth_drop) simp
  also have "Suc r + (l - 1) + (j - length ?X - length ?seg) = j"
    using assms(4,5) lenX lenseg by simp
  finally show ?thesis unfolding spliced_eq [OF assms(1-3)] .
qed

lemma fold_merge_frame:
  assumes "u \<notin> fst ` set ps"
  shows "fst (fold (\<lambda>p acc. merge_one c acc p) ps ts) ! u = fst ts ! u \<and>
         snd (fold (\<lambda>p acc. merge_one c acc p) ps ts) ! u = snd ts ! u"
  using assms
proof (induction ps arbitrary: ts)
  case Nil
  then show ?case by simp
next
  case (Cons p ps)
  obtain t src r l ntr nsc where p: "p = (t, src, r, l, ntr, nsc)"
    by (metis prod_cases3)
  obtain tr sc where ts: "ts = (tr, sc)" by (cases ts)
  from Cons.prems p have ne: "u \<noteq> t" and rest: "u \<notin> fst ` set ps" by auto
  have "fst (merge_one c ts p) ! u = fst ts ! u \<and> snd (merge_one c ts p) ! u = snd ts ! u"
    using ne by (simp add: p ts merge_one_eq)
  with Cons.IH [OF rest, of "merge_one c ts p"] show ?case by simp
qed

lemma fold_merge_row:
  assumes "distinct (map fst ps)" and "(t, src, r, l, ntr, nsc) \<in> set ps"
    and "src \<notin> fst ` set ps" and "t < length (fst ts)" and "t < length (snd ts)"
  shows "fst (fold (\<lambda>p acc. merge_one c acc p) ps ts) ! t =
           spliced (fst ts ! t) (fst ts ! src) r l ntr \<and>
         snd (fold (\<lambda>p acc. merge_one c acc p) ps ts) ! t =
           override_row c (spliced (fst ts ! t) (fst ts ! src) r l ntr)
             (spliced (snd ts ! t) (snd ts ! src) r l nsc)"
  using assms
proof (induction ps arbitrary: ts)
  case Nil
  then show ?case by simp
next
  case (Cons p ps)
  obtain tr sc where ts: "ts = (tr, sc)" by (cases ts)
  show ?case
  proof (cases "p = (t, src, r, l, ntr, nsc)")
    case True
    from Cons.prems(1) True have "t \<notin> fst ` set ps" by auto
    from fold_merge_frame [OF this, of c "merge_one c ts p"]
    have "fst (fold (\<lambda>p acc. merge_one c acc p) (p # ps) ts) ! t = fst (merge_one c ts p) ! t"
      and "snd (fold (\<lambda>p acc. merge_one c acc p) (p # ps) ts) ! t = snd (merge_one c ts p) ! t"
      by simp_all
    then show ?thesis
      using Cons.prems(4,5) by (simp add: True ts merge_one_eq)
  next
    case False
    with Cons.prems(2) have mem: "(t, src, r, l, ntr, nsc) \<in> set ps" by simp
    obtain t' src' r' l' ntr' nsc' where p: "p = (t', src', r', l', ntr', nsc')"
      by (metis prod_cases3)
    from Cons.prems(1) mem p have ne: "t' \<noteq> t" by (auto simp: image_iff)
    from Cons.prems(3) p have ne2: "t' \<noteq> src" by auto
    let ?ts = "merge_one c ts p"
    have eqs: "fst ?ts ! t = fst ts ! t" "snd ?ts ! t = snd ts ! t"
      "fst ?ts ! src = fst ts ! src" "snd ?ts ! src = snd ts ! src"
      using ne ne2 by (simp_all add: p ts merge_one_eq)
    have len: "t < length (fst ?ts)" "t < length (snd ?ts)"
      using Cons.prems(4,5) by (simp_all add: length_merge_one)
    from Cons.prems(1) have d: "distinct (map fst ps)" by simp
    from Cons.prems(3) have s: "src \<notin> fst ` set ps" by simp
    from Cons.IH [OF d mem s len] show ?thesis by (simp add: eqs)
  qed
qed

subsection \<open>First true entry, maxima, scattered updates\<close>

lemma first_true_Some:
  "first_true bs = Some i \<Longrightarrow> i < length bs \<and> bs ! i \<and> (\<forall>j < i. \<not> bs ! j)"
proof (induction bs arbitrary: i)
  case Nil
  then show ?case by simp
next
  case (Cons b bs)
  show ?case
  proof (cases b)
    case True
    with Cons.prems show ?thesis by simp
  next
    case False
    with Cons.prems obtain i' where i': "first_true bs = Some i'" "i = Suc i'"
      by auto
    from Cons.IH [OF i'(1)] False i'(2) show ?thesis
      by (auto simp: nth_Cons split: nat.splits)
  qed
qed

lemma first_true_None: "first_true bs = None \<Longrightarrow> \<forall>j < length bs. \<not> bs ! j"
proof (induction bs)
  case Nil
  then show ?case by simp
next
  case (Cons b bs)
  then show ?case by (auto simp: nth_Cons split: if_splits nat.splits)
qed

lemma argmax_bool_found:
  assumes "j < length bs" "bs ! j"
  shows "argmax_bool bs < length bs \<and> bs ! argmax_bool bs \<and> argmax_bool bs \<le> j \<and>
         (\<forall>i < argmax_bool bs. \<not> bs ! i)"
proof (cases "first_true bs")
  case None
  with first_true_None assms show ?thesis by blast
next
  case (Some i)
  from first_true_Some [OF Some] have i: "i < length bs" "bs ! i" "\<forall>j < i. \<not> bs ! j" by auto
  have "i \<le> j" using i(3) assms(2) by (meson not_le)
  with i Some show ?thesis by (simp add: argmax_bool_def)
qed

lemma argmax_bool_le: "argmax_bool bs \<le> length bs"
  by (cases "first_true bs") (auto simp: argmax_bool_def dest: first_true_Some)

lemma argmax_bool_pos:
  assumes "0 < argmax_bool bs"
  shows "argmax_bool bs < length bs \<and> bs ! argmax_bool bs \<and> (\<forall>i < argmax_bool bs. \<not> bs ! i)"
  using assms by (cases "first_true bs") (auto simp: argmax_bool_def dest: first_true_Some)

lemma fold_max_ge: "(a::'a::linorder) \<le> fold max xs a"
  by (induction xs arbitrary: a) (auto intro: order_trans [OF max.cobounded2])

lemma fold_max_mem: "(x::'a::linorder) \<in> set xs \<Longrightarrow> x \<le> fold max xs a"
proof (induction xs arbitrary: a)
  case Nil
  then show ?case by simp
next
  case (Cons y ys)
  show ?case
  proof (cases "x = y")
    case True
    have "x \<le> max y a" using True by simp
    also have "\<dots> \<le> fold max ys (max y a)" by (rule fold_max_ge)
    finally show ?thesis by simp
  next
    case False
    with Cons show ?thesis by simp
  qed
qed

lemma fold_max_in: "fold max xs (a::'a::linorder) \<in> insert a (set xs)"
  by (induction xs arbitrary: a) (auto simp: max_def)

lemma fold_max_bound:
  assumes "(a::'a::linorder) \<le> b" "\<forall>x \<in> set xs. x \<le> b"
  shows "fold max xs a \<le> b"
  using fold_max_in [of xs a] assms by auto

lemma nanmax_Some:
  assumes "nanmax xs = Some m"
  shows "Some m \<in> set xs \<and> (\<forall>u. Some u \<in> set xs \<longrightarrow> u \<le> m)"
proof -
  from assms obtain v vs where d: "defined_vals xs = v # vs" and m: "m = fold max vs v"
    by (auto simp: nanmax_def split: list.splits)
  have "m \<in> set (defined_vals xs)" using fold_max_in [of vs v] d m by auto
  then have "Some m \<in> set xs" by (simp add: set_defined_vals)
  moreover have "u \<le> m" if "Some u \<in> set xs" for u
  proof -
    from that have "u \<in> set (defined_vals xs)" by (simp add: set_defined_vals)
    then have "u \<in> set (v # vs)" by (simp only: d)
    then show ?thesis using fold_max_ge [of v vs] fold_max_mem [of u vs v] m by auto
  qed
  ultimately show ?thesis by blast
qed

lemma scatter_length: "length (scatter xs is vs) = length xs"
  by (induction xs "is" vs rule: scatter.induct) simp_all

lemma scatter_other: "u \<notin> set is \<Longrightarrow> scatter xs is vs ! u = xs ! u"
  by (induction xs "is" vs rule: scatter.induct) auto

lemma scatter_nth:
  assumes "distinct is" "length vs = length is" "\<forall>i \<in> set is. i < length xs" "n < length is"
  shows "scatter xs is vs ! (is ! n) = vs ! n"
  using assms
proof (induction xs "is" vs arbitrary: n rule: scatter.induct)
  case (1 xs i "is" v vs)
  show ?case
  proof (cases n)
    case 0
    from 1(2) have "i \<notin> set is" by simp
    then have "scatter (xs[i := v]) is vs ! i = xs[i := v] ! i" by (rule scatter_other)
    with 1(4) 0 show ?thesis by simp
  next
    case (Suc n')
    with 1 show ?thesis by simp
  qed
qed simp_all

lemma override_idem: "override c x (override c x v) = override c x v"
  by (simp add: override_def)

lemma override_nan: "nan_ok c \<Longrightarrow> any_nan x \<Longrightarrow> override c x v = v"
  by (simp add: override_def nan_ok_def)

lemma any_nan_pad: "any_nan (replicate dimension None)"
  by (simp add: any_nan_def dimension_def)

subsection \<open>The invariant of the ensemble: the initial ensemble\<close>

lemma rect_nth:
  assumes "rect n T b" "i < n"
  shows "length (b ! i) = T" and "b ! i \<in> set b"
  using assms by (auto simp: rect_def list_all_iff)

lemma gen_ok_rect:
  assumes "gen_ok c"
  obtains T where "0 < T" "rect n T (comp_traj c j n inits)"
  using assms unfolding gen_ok_def by blast

lemma gen_pad_nth:
  assumes "gen_pad c" "tr \<in> set (comp_traj c j n inits)" "a \<le> b" "b < length tr" "any_nan (tr ! a)"
  shows "any_nan (tr ! b)"
  using assms unfolding gen_pad_def by blast

lemma Nt_initial_le: "Nt_initial tr \<le> length tr"
  using argmax_bool_le [of "map any_nan tr"] by (simp add: Nt_initial_def Let_def)

lemma Nt_initial_defined:
  assumes suffix: "\<And>a b. a \<le> b \<Longrightarrow> b < length tr \<Longrightarrow> any_nan (tr ! a) \<Longrightarrow> any_nan (tr ! b)"
    and j: "j < length tr" "\<not> any_nan (tr ! j)"
  shows "j < Nt_initial tr"
proof (cases "argmax_bool (map any_nan tr) = 0")
  case True
  with j show ?thesis by (simp add: Nt_initial_def)
next
  case False
  let ?n = "argmax_bool (map any_nan tr)"
  from False have "0 < ?n" by simp
  from argmax_bool_pos [OF this] have n0: "?n < length (map any_nan tr)" "map any_nan tr ! ?n" by blast+
  then have n: "?n < length tr" "any_nan (tr ! ?n)" by simp_all
  have "j < ?n"
  proof (rule ccontr)
    assume "\<not> j < ?n"
    then have "?n \<le> j" by simp
    from suffix [OF this j(1) n(2)] j(2) show False by simp
  qed
  with False show ?thesis by (simp add: Nt_initial_def Let_def)
qed

lemma row_inv_initial:
  assumes nan: "nan_ok c"
    and suffix: "\<And>a b. a \<le> b \<Longrightarrow> b < length tr \<Longrightarrow> any_nan (tr ! a) \<Longrightarrow> any_nan (tr ! b)"
  shows "row_inv c (length tr) (Nt_initial tr) tr (override_row c tr (map (comp_score c) tr))"
proof -
  let ?sr = "override_row c tr (map (comp_score c) tr)"
  have len: "length ?sr = length tr" by (simp add: override_row_def)
  have nth: "?sr ! j = override c (tr ! j) (comp_score c (tr ! j))" if "j < length tr" for j
    using that by (simp add: override_row_def)
  have none: "?sr ! j = None" if "j < length tr" "any_nan (tr ! j)" for j
    using that nan by (simp add: nth override_def nan_ok_def)
  have "override c (tr ! j) (?sr ! j) = ?sr ! j \<and>
        (any_nan (tr ! j) \<longrightarrow> ?sr ! j = None) \<and>
        (\<forall>v. ?sr ! j = Some v \<longrightarrow> (\<exists>j' < Nt_initial tr. \<exists>v'. ?sr ! j' = Some v' \<and> v \<le> v'))"
    if j: "j < length tr" for j
  proof (intro conjI allI impI)
    show "override c (tr ! j) (?sr ! j) = ?sr ! j"
      by (simp add: nth [OF j] override_idem)
    show "?sr ! j = None" if "any_nan (tr ! j)" using none [OF j that] .
    fix v assume v: "?sr ! j = Some v"
    then have "\<not> any_nan (tr ! j)" using none [OF j] by auto
    with suffix j have "j < Nt_initial tr" by (intro Nt_initial_defined) auto
    with v show "\<exists>j' < Nt_initial tr. \<exists>v'. ?sr ! j' = Some v' \<and> v \<le> v'" by auto
  qed
  then show ?thesis
    using len Nt_initial_le [of tr] by (simp add: row_inv_def)
qed

lemma ens_inv_init:
  assumes ok: "collab_ok c" and init: "ams_init c cfg init_state = Inr s"
  shows "ens_inv c cfg s"
proof -
  from ok have gok: "gen_ok c" and pad: "gen_pad c" and nan: "nan_ok c"
    by (simp_all add: collab_ok_def)
  let ?tr = "comp_traj c 0 (N_traj cfg) init_state"
  let ?N = "N_traj cfg"
  from gok obtain T where T: "0 < T" "rect ?N T ?tr" by (rule gen_ok_rect)
  have lenN: "length ?tr = ?N" using T(2) by (simp add: rect_def)
  from init have s: "s = \<lparr>k = 0, w = 1, traj = ?tr,
      score = map (\<lambda>row. override_row c row (map (comp_score c) row)) ?tr,
      Nt = map Nt_initial ?tr, max_Nt = fold max (map Nt_initial ?tr) 0,
      Q = map nanmax (map (\<lambda>row. override_row c row (map (comp_score c) row)) ?tr)\<rparr>"
    by (auto simp: ams_init_def Let_def split: if_splits)
  have rows: "row_inv c T (Nt s ! t) (traj s ! t) (score s ! t)" if t: "t < ?N" for t
  proof -
    have lt: "length (?tr ! t) = T" and mem: "?tr ! t \<in> set ?tr"
      using rect_nth [OF T(2) t] by simp_all
    have "row_inv c (length (?tr ! t)) (Nt_initial (?tr ! t)) (?tr ! t)
            (override_row c (?tr ! t) (map (comp_score c) (?tr ! t)))"
      using nan gen_pad_nth [OF pad mem] by (rule row_inv_initial)
    then show ?thesis using t lenN by (simp add: s lt)
  qed
  have "max_Nt s \<le> T"
  proof -
    have "\<forall>x \<in> set (map Nt_initial ?tr). x \<le> T"
      using T(2) Nt_initial_le by (fastforce simp: rect_def list_all_iff)
    then have "fold max (map Nt_initial ?tr) 0 \<le> T" by (intro fold_max_bound) simp_all
    then show ?thesis by (simp add: s)
  qed
  moreover have "length (traj s) = ?N" "length (score s) = ?N" "length (Nt s) = ?N"
    "Q s = map nanmax (score s)" using lenN by (simp_all add: s)
  ultimately show ?thesis
    unfolding ens_inv_def using T(1) rows by blast
qed

subsection \<open>Selection and restart inside a pass\<close>

lemma ens_invE:
  assumes "ens_inv c cfg s"
  obtains T where "0 < T" "length (traj s) = N_traj cfg" "length (score s) = N_traj cfg"
    "length (Nt s) = N_traj cfg" "Q s = map nanmax (score s)" "max_Nt s \<le> T"
    "\<And>t. t < N_traj cfg \<Longrightarrow> row_inv c T (Nt s ! t) (traj s ! t) (score s ! t)"
  using assms unfolding ens_inv_def by blast

lemma ens_inv_length_Q: "ens_inv c cfg s \<Longrightarrow> length (Q s) = N_traj cfg"
  by (erule ens_invE) simp

lemma pass_thr:
  assumes "pass c cfg s thr srcs"
  obtains v where "thr = Some v"
proof -
  from assms have "1 \<le> nc cfg" "loop_cond cfg s" "threshold cfg s = Inr thr"
    by (simp_all add: pass_def)
  with threshold_value [of cfg s] that show ?thesis by auto
qed

lemma pass_idx:
  assumes "pass c cfg s (Some v) srcs" and "t \<in> set (idx (Some v) s)"
  shows "t < N_traj cfg" and "\<exists>q. Q s ! t = Some q \<and> q \<le> v"
proof -
  from assms(1) have "ens_inv c cfg s" by (simp add: pass_def)
  then have "length (Q s) = N_traj cfg" by (rule ens_inv_length_Q)
  with assms(2) show "t < N_traj cfg" and "\<exists>q. Q s ! t = Some q \<and> q \<le> v"
    by (simp_all add: set_idx fle_Some_iff)
qed

lemma pass_srcs:
  assumes "pass c cfg s (Some v) srcs"
  shows "length srcs = length (idx (Some v) s)"
    and "\<And>i. i < length srcs \<Longrightarrow>
           srcs ! i < N_traj cfg \<and> srcs ! i \<notin> set (idx (Some v) s) \<and>
           (\<exists>m. Q s ! (srcs ! i) = Some m \<and> v < m)"
proof -
  from assms have ch: "choice_ok c" and ni: "new_ind c (Some v) s = Inr srcs"
    and ne: "idx (Some v) s \<noteq> []" and inv: "ens_inv c cfg s"
    by (simp_all add: pass_def collab_ok_def)
  from ni ne have o: "other_idx (Some v) s \<noteq> []"
    and srcs: "srcs = rng_choice c (k s) (other_idx (Some v) s) (length (idx (Some v) s))"
    by (auto simp: new_ind_def split: if_splits)
  from ch show len: "length srcs = length (idx (Some v) s)"
    by (simp add: srcs choice_ok_def)
  from ch o have sub: "set srcs \<subseteq> set (other_idx (Some v) s)"
    unfolding srcs choice_ok_def by blast
  fix i assume "i < length srcs"
  then have "srcs ! i \<in> set (other_idx (Some v) s)" using sub by auto
  then have a: "srcs ! i < length (Q s)" "fgt (Q s ! (srcs ! i)) (Some v)"
    by (simp_all add: set_other_idx)
  from a(2) obtain m where m: "Q s ! (srcs ! i) = Some m" "v < m"
    by (auto simp: fgt_Some_iff)
  then have "\<not> fle (Q s ! (srcs ! i)) (Some v)" by simp
  then have "srcs ! i \<notin> set (idx (Some v) s)" by (simp add: set_idx)
  with a(1) m ens_inv_length_Q [OF inv]
  show "srcs ! i < N_traj cfg \<and> srcs ! i \<notin> set (idx (Some v) s) \<and>
        (\<exists>m. Q s ! (srcs ! i) = Some m \<and> v < m)" by auto
qed

lemma restart_nth:
  assumes "length srcs = length (idx thr s)" "i < length srcs"
  shows "restart thr s srcs ! i = restart_of s (srcs ! i) (Q s ! (idx thr s ! i))"
  using assms by (simp add: restart_def Q_min_def)

lemma length_restart:
  assumes "length srcs = length (idx thr s)"
  shows "length (restart thr s srcs) = length srcs"
  using assms by (simp add: restart_def Q_min_def)

text \<open>The restart search for a source above the threshold and a level at most the
  threshold.\<close>

lemma restart_of_found:
  assumes row: "row_inv c T n (traj s ! src) (score s ! src)"
    and q: "nanmax (score s ! src) = Some m" "u < m"
  shows "restart_of s src (Some u) < n"
    and "\<exists>z. score s ! src ! restart_of s src (Some u) = Some z \<and> u \<le> z"
    and "\<forall>j < restart_of s src (Some u). \<not> fge (score s ! src ! j) (Some u)"
proof -
  let ?sr = "score s ! src"
  let ?bs = "map (\<lambda>x. fge x (Some u)) ?sr"
  let ?r = "restart_of s src (Some u)"
  have r_def: "?r = argmax_bool ?bs" by (simp add: restart_of_def)
  from row have len: "length ?sr = T" and nT: "n \<le> T"
    and dom: "\<And>j x. j < T \<Longrightarrow> ?sr ! j = Some x \<Longrightarrow> \<exists>j' < n. \<exists>x'. ?sr ! j' = Some x' \<and> x \<le> x'"
    unfolding row_inv_def by blast+
  from nanmax_Some [OF q(1)] have "Some m \<in> set ?sr" by simp
  then obtain j where j: "j < T" "?sr ! j = Some m"
    using len by (auto simp: in_set_conv_nth)
  from dom [OF j] obtain j' x' where j': "j' < n" "?sr ! j' = Some x'" "m \<le> x'" by blast
  have bj: "j' < length ?bs" "?bs ! j'"
    using j' nT len q(2) by simp_all
  from argmax_bool_found [OF bj]
  have r: "?r < length ?bs" "?bs ! ?r" "?r \<le> j'" "\<forall>i < ?r. \<not> ?bs ! i"
    unfolding r_def by blast+
  from r(3) j'(1) show "?r < n" by simp
  from r(1,2) show "\<exists>z. ?sr ! ?r = Some z \<and> u \<le> z"
    by (simp add: fge_Some_iff)
  show "\<forall>j < ?r. \<not> fge (?sr ! j) (Some u)"
  proof (intro allI impI)
    fix j assume "j < ?r"
    with r(1,4) have "j < length ?sr" "\<not> ?bs ! j" by simp_all
    then show "\<not> fge (?sr ! j) (Some u)" by simp
  qed
qed

lemma pass_restart:
  assumes p: "pass c cfg s (Some v) srcs" and i: "i < length srcs"
  shows "\<exists>q. Q s ! (idx (Some v) s ! i) = Some q \<and> q \<le> v \<and>
     restart (Some v) s srcs ! i = restart_of s (srcs ! i) (Some q) \<and>
     restart (Some v) s srcs ! i < Nt s ! (srcs ! i) \<and>
     (\<exists>z. score s ! (srcs ! i) ! (restart (Some v) s srcs ! i) = Some z \<and> q \<le> z) \<and>
     (\<forall>j < restart (Some v) s srcs ! i. \<not> fge (score s ! (srcs ! i) ! j) (Some q))"
proof -
  let ?ids = "idx (Some v) s"
  from pass_srcs [OF p] i have len: "length srcs = length ?ids"
    and src: "srcs ! i < N_traj cfg" "\<exists>m. Q s ! (srcs ! i) = Some m \<and> v < m"
    by blast+
  from i len have "?ids ! i \<in> set ?ids" by simp
  from pass_idx(2) [OF p this] obtain q where q: "Q s ! (?ids ! i) = Some q" "q \<le> v" by blast
  from src(2) obtain m where m: "Q s ! (srcs ! i) = Some m" "v < m" by blast
  from p have inv: "ens_inv c cfg s" by (simp add: pass_def)
  from inv obtain T where T: "length (score s) = N_traj cfg" "Q s = map nanmax (score s)"
    "row_inv c T (Nt s ! (srcs ! i)) (traj s ! (srcs ! i)) (score s ! (srcs ! i))"
    using src(1) by (auto elim!: ens_invE)
  from T(1,2) src(1) m(1) have nm: "nanmax (score s ! (srcs ! i)) = Some m" by simp
  have um: "q < m" using q(2) m(2) by simp
  have r: "restart (Some v) s srcs ! i = restart_of s (srcs ! i) (Some q)"
    using restart_nth [OF len i] q(1) by simp
  from restart_of_found [OF T(3) nm um] q r show ?thesis by simp
qed

subsection \<open>What the merge keeps of a slot\<close>

lemma row_invD:
  assumes "row_inv c T n row srow"
  shows "length row = T" "length srow = T" "n \<le> T"
    and "\<And>j. j < T \<Longrightarrow> override c (row ! j) (srow ! j) = srow ! j"
    and "\<And>j. j < T \<Longrightarrow> any_nan (row ! j) \<Longrightarrow> srow ! j = None"
    and "\<And>j x. j < T \<Longrightarrow> srow ! j = Some x \<Longrightarrow> \<exists>j' < n. \<exists>x'. srow ! j' = Some x' \<and> x \<le> x'"
  using assms unfolding row_inv_def by blast+

lemma row_invI:
  assumes "length row = T" "length srow = T" "n \<le> T"
    and "\<And>j. j < T \<Longrightarrow> override c (row ! j) (srow ! j) = srow ! j"
    and "\<And>j. j < T \<Longrightarrow> any_nan (row ! j) \<Longrightarrow> srow ! j = None"
    and "\<And>j x. j < T \<Longrightarrow> srow ! j = Some x \<Longrightarrow> \<exists>j' < n. \<exists>x'. srow ! j' = Some x' \<and> x \<le> x'"
  shows "row_inv c T n row srow"
  using assms unfolding row_inv_def by blast

text \<open>Growing the storage keeps what holds of a slot.\<close>

lemma row_inv_pad:
  assumes nan: "nan_ok c" and row: "row_inv c T n row srow"
  shows "row_inv c (T + d) n (row @ replicate d (replicate dimension None)) (srow @ replicate d None)"
proof (rule row_invI)
  let ?R = "row @ replicate d (replicate dimension None)"
  let ?S = "srow @ replicate d None"
  note r = row_invD [OF row]
  show "length ?R = T + d" "length ?S = T + d" "n \<le> T + d" using r(1-3) by simp_all
  have old: "?R ! j = row ! j" "?S ! j = srow ! j" if "j < T" for j
    using that r(1,2) by (simp_all add: nth_append)
  have new: "?R ! j = replicate dimension None" "?S ! j = None" if "T \<le> j" "j < T + d" for j
    using that r(1,2) by (simp_all add: nth_append)
  show "override c (?R ! j) (?S ! j) = ?S ! j" if "j < T + d" for j
  proof (cases "j < T")
    case True
    then show ?thesis using r(4) by (simp add: old)
  next
    case False
    with that have "?R ! j = replicate dimension None" "?S ! j = None" using new by simp_all
    then show ?thesis using override_nan [OF nan any_nan_pad] by simp
  qed
  show "?S ! j = None" if "j < T + d" "any_nan (?R ! j)" for j
  proof (cases "j < T")
    case True
    then show ?thesis using r(5) that(2) by (simp add: old)
  next
    case False
    with that show ?thesis using new by simp
  qed
  show "\<exists>j' < n. \<exists>x'. ?S ! j' = Some x' \<and> x \<le> x'" if "j < T + d" "?S ! j = Some x" for j x
  proof (cases "j < T")
    case True
    with that have "srow ! j = Some x" by (simp add: old)
    from r(6) [OF True this] obtain j' x' where j': "j' < n" "srow ! j' = Some x'" "x \<le> x'"
      by blast
    with r(3) have "?S ! j' = Some x'" by (simp add: old)
    with j' show ?thesis by blast
  next
    case False
    with that show ?thesis using new by simp
  qed
qed

text \<open>The slot written by the merge.\<close>

lemma row_inv_spliced:
  assumes nan: "nan_ok c"
    and rt: "row_inv c T nt row srow"
    and rs: "row_inv c T ns src_row src_srow"
    and r: "r < T" "src_srow ! r = Some z"
    and bound: "\<And>j x. j < T \<Longrightarrow> srow ! j = Some x \<Longrightarrow> x \<le> z"
    and l: "1 \<le> l" "l \<le> length ntr" "r + l \<le> T"
  shows "row_inv c T (r + l) (spliced row src_row r l ntr)
           (override_row c (spliced row src_row r l ntr)
              (spliced srow src_srow r l (map (comp_score c) ntr)))"
proof (rule row_invI)
  let ?nsc = "map (comp_score c) ntr"
  let ?R = "spliced row src_row r l ntr"
  let ?W = "spliced srow src_srow r l ?nsc"
  let ?S = "override_row c ?R ?W"
  note t = row_invD [OF rt] and s = row_invD [OF rs]
  have rl: "r < length src_row" "length row = length src_row" "l \<le> length ntr"
    and rl': "r < length src_srow" "length srow = length src_srow" "l \<le> length ?nsc"
    using r(1) t(1,2) s(1,2) l(2) by simp_all
  have lenR: "length ?R = T" using length_spliced [OF rl] l(3) t(1) by simp
  have lenW: "length ?W = T" using length_spliced [OF rl'] l(3) t(2) by simp
  show "length ?R = T" by (rule lenR)
  show "length ?S = T" using lenR lenW by (simp add: override_row_def)
  show "r + l \<le> T" by (rule l(3))
  have S: "?S ! j = override c (?R ! j) (?W ! j)" if "j < T" for j
    using that lenR lenW by (simp add: override_row_def)
  have pre: "?R ! j = src_row ! j" "?S ! j = src_srow ! j" if "j \<le> r" for j
  proof -
    from that r(1) have jT: "j < T" by simp
    show R: "?R ! j = src_row ! j" using spliced_prefix [OF rl that] .
    have "?W ! j = src_srow ! j" using spliced_prefix [OF rl' that] .
    with R S [OF jT] s(4) [OF jT] show "?S ! j = src_srow ! j" by simp
  qed
  have mid: "?R ! j = ntr ! (j - r)" "?S ! j = override c (ntr ! (j - r)) (comp_score c (ntr ! (j - r)))"
    if "r < j" "j < r + l" for j
  proof -
    from that l(3) have jT: "j < T" by simp
    from that l(2) have jl: "j - r < length ntr" by simp
    show R: "?R ! j = ntr ! (j - r)" using spliced_middle [OF rl that] .
    have "?W ! j = ?nsc ! (j - r)" using spliced_middle [OF rl' that] .
    with jl have "?W ! j = comp_score c (ntr ! (j - r))" by simp
    with R S [OF jT] show "?S ! j = override c (ntr ! (j - r)) (comp_score c (ntr ! (j - r)))"
      by simp
  qed
  have tail: "?R ! j = row ! j" "?S ! j = srow ! j" if "r + l \<le> j" "j < T" for j
  proof -
    from l(1) have l0: "0 < l" by simp
    from that t(1) have j1: "j < length row" by simp
    from that t(2) have j2: "j < length srow" by simp
    show R: "?R ! j = row ! j" using spliced_tail [OF rl l0 that(1) j1] .
    have "?W ! j = srow ! j" using spliced_tail [OF rl' l0 that(1) j2] .
    with R S [OF that(2)] t(4) [OF that(2)] show "?S ! j = srow ! j" by simp
  qed
  show "override c (?R ! j) (?S ! j) = ?S ! j" if "j < T" for j
    by (simp add: S [OF that] override_idem)
  show "?S ! j = None" if jT: "j < T" and an: "any_nan (?R ! j)" for j
  proof -
    consider "j \<le> r" | "r < j" "j < r + l" | "r + l \<le> j" by linarith
    then show ?thesis
    proof cases
      case 1
      with an s(5) [OF jT] show ?thesis by (simp add: pre)
    next
      case 2
      from an have "any_nan (ntr ! (j - r))" by (simp add: mid(1) [OF 2])
      with nan show ?thesis by (simp add: mid(2) [OF 2] override_def nan_ok_def)
    next
      case 3
      with an t(5) [OF jT] jT show ?thesis by (simp add: tail)
    qed
  qed
  show "\<exists>j' < r + l. \<exists>x'. ?S ! j' = Some x' \<and> x \<le> x'" if jT: "j < T" and x: "?S ! j = Some x" for j x
  proof (cases "j < r + l")
    case True
    with x show ?thesis by auto
  next
    case False
    then have 3: "r + l \<le> j" by simp
    from x have "srow ! j = Some x" by (simp add: tail [OF 3 jT])
    from bound [OF jT this] have "x \<le> z" .
    moreover have "?S ! r = Some z" using pre(2) [of r] r(2) by simp
    moreover have "r < r + l" using l(1) by simp
    ultimately show ?thesis by blast
  qed
qed

text \<open>The natural length of a continuation that starts in a defined state.\<close>

lemma Nt_regen_bounds:
  assumes "tr \<noteq> []" "\<not> any_nan (tr ! 0)"
  shows "1 \<le> Nt_regen tr" and "Nt_regen tr \<le> length tr"
proof -
  let ?bs = "map any_nan tr"
  show "Nt_regen tr \<le> length tr"
    using argmax_bool_le [of ?bs] by (simp add: Nt_regen_def)
  show "1 \<le> Nt_regen tr"
  proof (cases "list_all (\<lambda>x. \<not> any_nan x) tr")
    case True
    with assms(1) show ?thesis by (cases tr) (simp_all add: Nt_regen_def)
  next
    case False
    then obtain j where j: "j < length ?bs" "?bs ! j"
      by (auto simp: list_all_iff in_set_conv_nth)
    from argmax_bool_found [OF j] have "?bs ! argmax_bool ?bs" "argmax_bool ?bs < length tr"
      by simp_all
    then have "any_nan (tr ! argmax_bool ?bs)" by simp
    with assms(2) have "argmax_bool ?bs \<noteq> 0" by (metis)
    with False show ?thesis by (simp add: Nt_regen_def)
  qed
qed

subsection \<open>The pieces of a pass\<close>

lemma zip6_nth:
  assumes "length b = length a" "length cs = length a" "length d = length a"
    "length e = length a" "length f = length a"
  shows "length (zip a (zip b (zip cs (zip d (zip e f))))) = length a"
    and "map fst (zip a (zip b (zip cs (zip d (zip e f))))) = a"
    and "\<And>i. i < length a \<Longrightarrow>
           zip a (zip b (zip cs (zip d (zip e f)))) ! i = (a ! i, b ! i, cs ! i, d ! i, e ! i, f ! i)"
  using assms by simp_all

lemma length_init_clone:
  "length (init_clone s srcs rs) = min (length srcs) (length rs)"
  by (simp add: init_clone_def)

lemma init_clone_nth:
  assumes "i < length srcs" "length rs = length srcs"
  shows "init_clone s srcs rs ! i = traj s ! (srcs ! i) ! (rs ! i)"
  using assms by (simp add: init_clone_def)

lemma gen_start_nth:
  assumes "gen_start c" "i < n" "i < length inits" "\<not> any_nan (inits ! i)"
  shows "\<not> any_nan (comp_traj c j n inits ! i ! 0)"
  using assms unfolding gen_start_def by blast

text \<open>The continuations generated in a pass.\<close>

lemma pass_new_traj:
  assumes p: "pass c cfg s (Some v) srcs"
  shows "\<exists>T2 > 0. rect (length (idx (Some v) s)) T2 (new_traj c (Some v) s srcs) \<and>
           (\<forall>i < length (idx (Some v) s). \<not> any_nan (new_traj c (Some v) s srcs ! i ! 0))"
proof -
  let ?ids = "idx (Some v) s"
  let ?rs = "restart (Some v) s srcs"
  let ?ic = "init_clone s srcs ?rs"
  from p have gok: "gen_ok c" and gst: "gen_start c" and inv: "ens_inv c cfg s"
    by (simp_all add: pass_def collab_ok_def)
  from pass_srcs(1) [OF p] have len: "length srcs = length ?ids" .
  have lrs: "length ?rs = length srcs" using len by (rule length_restart)
  have lic: "length ?ic = length ?ids" using len lrs by (simp add: length_init_clone)
  from gok obtain T2 where T2: "0 < T2"
    "rect (length ?ids) T2 (comp_traj c (Suc (k s)) (length ?ids) ?ic)" by (rule gen_ok_rect)
  have "\<not> any_nan (new_traj c (Some v) s srcs ! i ! 0)" if i: "i < length ?ids" for i
  proof -
    from i len have i': "i < length srcs" by simp
    from pass_restart [OF p i'] obtain z where
      r: "?rs ! i < Nt s ! (srcs ! i)" and z: "score s ! (srcs ! i) ! (?rs ! i) = Some z"
      by blast
    from pass_srcs(2) [OF p i'] have src: "srcs ! i < N_traj cfg" by simp
    from inv src obtain T where
      row: "row_inv c T (Nt s ! (srcs ! i)) (traj s ! (srcs ! i)) (score s ! (srcs ! i))"
      by (auto elim!: ens_invE)
    from row_invD(3) [OF row] r have rT: "?rs ! i < T" by simp
    from row_invD(5) [OF row rT] z have "\<not> any_nan (traj s ! (srcs ! i) ! (?rs ! i))" by auto
    then have "\<not> any_nan (?ic ! i)" using init_clone_nth [OF i' lrs] by simp
    with gst i lic show ?thesis
      unfolding new_traj_def by (intro gen_start_nth) simp_all
  qed
  with T2 show ?thesis unfolding new_traj_def by blast
qed

lemma pass_new_nt:
  assumes p: "pass c cfg s (Some v) srcs" and i: "i < length (idx (Some v) s)"
  shows "length (new_nt c (Some v) s srcs) = length (idx (Some v) s)"
    and "1 \<le> new_nt c (Some v) s srcs ! i"
    and "new_nt c (Some v) s srcs ! i \<le> length (new_traj c (Some v) s srcs ! i)"
proof -
  let ?ntr = "new_traj c (Some v) s srcs"
  from pass_new_traj [OF p] obtain T2 where T2: "0 < T2" "rect (length (idx (Some v) s)) T2 ?ntr"
    "\<And>i. i < length (idx (Some v) s) \<Longrightarrow> \<not> any_nan (?ntr ! i ! 0)"
    by blast
  from T2(2) have len: "length ?ntr = length (idx (Some v) s)" by (simp add: rect_def)
  then show "length (new_nt c (Some v) s srcs) = length (idx (Some v) s)"
    by (simp add: new_nt_def)
  from rect_nth(1) [OF T2(2) i] T2(1) have ne: "?ntr ! i \<noteq> []" by auto
  have nth: "new_nt c (Some v) s srcs ! i = Nt_regen (?ntr ! i)"
    using i len by (simp add: new_nt_def)
  from Nt_regen_bounds [OF ne T2(3) [OF i]] nth
  show "1 \<le> new_nt c (Some v) s srcs ! i"
    and "new_nt c (Some v) s srcs ! i \<le> length (?ntr ! i)" by simp_all
qed

lemma pass_new_Nt:
  assumes p: "pass c cfg s (Some v) srcs"
  shows "length (new_Nt c (Some v) s srcs) = N_traj cfg"
    and "\<And>i. i < length (idx (Some v) s) \<Longrightarrow>
           new_Nt c (Some v) s srcs ! (idx (Some v) s ! i) =
             restart (Some v) s srcs ! i + new_nt c (Some v) s srcs ! i"
    and "\<And>u. u \<notin> set (idx (Some v) s) \<Longrightarrow> new_Nt c (Some v) s srcs ! u = Nt s ! u"
proof -
  let ?ids = "idx (Some v) s"
  let ?rs = "restart (Some v) s srcs"
  let ?ls = "new_nt c (Some v) s srcs"
  from p have inv: "ens_inv c cfg s" by (simp add: pass_def)
  then have lNt: "length (Nt s) = N_traj cfg" by (auto elim: ens_invE)
  then show "length (new_Nt c (Some v) s srcs) = N_traj cfg"
    by (simp add: new_Nt_def scatter_length)
  show "new_Nt c (Some v) s srcs ! u = Nt s ! u" if "u \<notin> set ?ids" for u
    using that by (simp add: new_Nt_def scatter_other)
  fix i assume i: "i < length ?ids"
  from pass_srcs(1) [OF p] have len: "length srcs = length ?ids" .
  have lrs: "length ?rs = length ?ids" using length_restart [OF len] len by simp
  have lls: "length ?ls = length ?ids" using pass_new_nt(1) [OF p i] .
  have d: "distinct ?ids" by (simp add: idx_def distinct_flatnonzero)
  have b: "\<forall>t \<in> set ?ids. t < length (Nt s)" using pass_idx(1) [OF p] lNt by simp
  have lv: "length (map2 (+) ?rs ?ls) = length ?ids" using lrs lls by simp
  from scatter_nth [OF d lv b i] i lrs lls
  show "new_Nt c (Some v) s srcs ! (?ids ! i) = ?rs ! i + ?ls ! i"
    by (simp add: new_Nt_def)
qed

lemma pass_new_max:
  assumes p: "pass c cfg s (Some v) srcs" and i: "i < length (idx (Some v) s)"
  shows "restart (Some v) s srcs ! i + new_nt c (Some v) s srcs ! i \<le> new_max c (Some v) s srcs"
proof -
  let ?ids = "idx (Some v) s"
  have "new_Nt c (Some v) s srcs ! (?ids ! i) \<in> set (map (\<lambda>t. new_Nt c (Some v) s srcs ! t) ?ids)"
    using i by simp
  then have "new_Nt c (Some v) s srcs ! (?ids ! i) \<le> new_max c (Some v) s srcs"
    unfolding new_max_def by (rule fold_max_mem)
  with pass_new_Nt(2) [OF p i] show ?thesis by simp
qed

text \<open>The storage after lines 136-142: every row is extended by the same number of
  undefined steps, and is long enough for every regenerated trajectory.\<close>

lemma padded_eq:
  "padded c thr s srcs =
     (grow_traj (new_max c thr s srcs - max_Nt s) (traj s),
      grow_score (new_max c thr s srcs - max_Nt s) (score s))"
proof (cases "new_max c thr s srcs > max_Nt s")
  case True
  then show ?thesis by (simp add: padded_def)
next
  case False
  then have "new_max c thr s srcs - max_Nt s = 0" by simp
  then have "grow_traj (new_max c thr s srcs - max_Nt s) (traj s) = traj s"
    and "grow_score (new_max c thr s srcs - max_Nt s) (score s) = score s"
    by (simp_all add: grow_traj_def grow_score_def)
  with False show ?thesis by (simp add: padded_def)
qed

lemma padded_nth:
  assumes "u < length (traj s)" "u < length (score s)"
  shows "fst (padded c thr s srcs) ! u =
           traj s ! u @ replicate (new_max c thr s srcs - max_Nt s) (replicate dimension None)"
    and "snd (padded c thr s srcs) ! u =
           score s ! u @ replicate (new_max c thr s srcs - max_Nt s) None"
  using assms by (simp_all add: padded_eq grow_traj_def grow_score_def)

lemma padded_fits:
  assumes "max_Nt s \<le> T"
  shows "new_max c thr s srcs \<le> T + (new_max c thr s srcs - max_Nt s)"
    and "(if new_max c thr s srcs > max_Nt s then new_max c thr s srcs else max_Nt s)
           \<le> T + (new_max c thr s srcs - max_Nt s)"
  using assms by (simp, auto)

text \<open>The rows of the ensemble after the merge.\<close>

lemma pass_merged_other:
  assumes "u \<notin> set (idx thr s)"
  shows "fst (merged c thr s srcs) ! u = fst (padded c thr s srcs) ! u"
    and "snd (merged c thr s srcs) ! u = snd (padded c thr s srcs) ! u"
proof -
  let ?ps = "zip (idx thr s) (zip srcs (zip (restart thr s srcs) (zip (new_nt c thr s srcs)
     (zip (new_traj c thr s srcs) (map (map (comp_score c)) (new_traj c thr s srcs))))))"
  have "fst ` set ?ps \<subseteq> set (idx thr s)"
    by (auto dest: set_zip_leftD)
  with assms have "u \<notin> fst ` set ?ps" by blast
  from fold_merge_frame [OF this, of c "padded c thr s srcs"]
  show "fst (merged c thr s srcs) ! u = fst (padded c thr s srcs) ! u"
    and "snd (merged c thr s srcs) ! u = snd (padded c thr s srcs) ! u"
    by (simp_all add: merged_def merge_def)
qed

lemma pass_merged_row:
  assumes p: "pass c cfg s (Some v) srcs" and i: "i < length (idx (Some v) s)"
  shows "fst (merged c (Some v) s srcs) ! (idx (Some v) s ! i) =
           spliced (fst (padded c (Some v) s srcs) ! (idx (Some v) s ! i))
             (fst (padded c (Some v) s srcs) ! (srcs ! i))
             (restart (Some v) s srcs ! i) (new_nt c (Some v) s srcs ! i)
             (new_traj c (Some v) s srcs ! i)"
    and "snd (merged c (Some v) s srcs) ! (idx (Some v) s ! i) =
           override_row c (fst (merged c (Some v) s srcs) ! (idx (Some v) s ! i))
             (spliced (snd (padded c (Some v) s srcs) ! (idx (Some v) s ! i))
                (snd (padded c (Some v) s srcs) ! (srcs ! i))
                (restart (Some v) s srcs ! i) (new_nt c (Some v) s srcs ! i)
                (map (comp_score c) (new_traj c (Some v) s srcs ! i)))"
proof -
  let ?ids = "idx (Some v) s"
  let ?rs = "restart (Some v) s srcs"
  let ?ls = "new_nt c (Some v) s srcs"
  let ?ntr = "new_traj c (Some v) s srcs"
  let ?nsc = "map (map (comp_score c)) ?ntr"
  let ?ps = "zip ?ids (zip srcs (zip ?rs (zip ?ls (zip ?ntr ?nsc))))"
  let ?pd = "padded c (Some v) s srcs"
  from pass_srcs(1) [OF p] have l1: "length srcs = length ?ids" .
  have l2: "length ?rs = length ?ids" using length_restart [OF l1] l1 by simp
  have l3: "length ?ls = length ?ids" using pass_new_nt(1) [OF p i] .
  have l4: "length ?ntr = length ?ids" using l3 by (simp add: new_nt_def)
  have l5: "length ?nsc = length ?ids" using l4 by simp
  note z = zip6_nth [OF l1 l2 l3 l4 l5]
  have d: "distinct (map fst ?ps)"
    unfolding z(2) by (simp add: idx_def distinct_flatnonzero)
  have "?ps ! i \<in> set ?ps" using i z(1) by (intro nth_mem) simp
  then have mem: "(?ids ! i, srcs ! i, ?rs ! i, ?ls ! i, ?ntr ! i, ?nsc ! i) \<in> set ?ps"
    using z(3) [OF i] by simp
  have fs: "fst ` set ?ps = set ?ids"
    using z(2) by (metis set_map)
  from i l1 have i': "i < length srcs" by simp
  from pass_srcs(2) [OF p i'] have "srcs ! i \<notin> set ?ids" by simp
  with fs have src: "srcs ! i \<notin> fst ` set ?ps" by simp
  from p have inv: "ens_inv c cfg s" by (simp add: pass_def)
  from i have "?ids ! i \<in> set ?ids" by simp
  from pass_idx(1) [OF p this] have tN: "?ids ! i < N_traj cfg" .
  from inv have "length (traj s) = N_traj cfg" "length (score s) = N_traj cfg"
    by (auto elim: ens_invE)
  with tN have t1: "?ids ! i < length (fst ?pd)" and t2: "?ids ! i < length (snd ?pd)"
    by (simp_all add: length_padded)
  have nsc: "?nsc ! i = map (comp_score c) (?ntr ! i)" using i l4 by simp
  from fold_merge_row [OF d mem src t1 t2, of c]
  show "fst (merged c (Some v) s srcs) ! (?ids ! i) =
           spliced (fst ?pd ! (?ids ! i)) (fst ?pd ! (srcs ! i)) (?rs ! i) (?ls ! i) (?ntr ! i)"
    and "snd (merged c (Some v) s srcs) ! (?ids ! i) =
           override_row c (fst (merged c (Some v) s srcs) ! (?ids ! i))
             (spliced (snd ?pd ! (?ids ! i)) (snd ?pd ! (srcs ! i)) (?rs ! i) (?ls ! i)
                (map (comp_score c) (?ntr ! i)))"
    by (simp_all add: merged_def merge_def nsc)
qed

subsection \<open>The invariant is kept by every pass\<close>

lemma pass_padded_row:
  assumes p: "pass c cfg s (Some v) srcs" and T: "0 < T"
    "\<And>t. t < N_traj cfg \<Longrightarrow> row_inv c T (Nt s ! t) (traj s ! t) (score s ! t)"
    and u: "u < N_traj cfg"
  shows "row_inv c (T + (new_max c (Some v) s srcs - max_Nt s)) (Nt s ! u)
           (fst (padded c (Some v) s srcs) ! u) (snd (padded c (Some v) s srcs) ! u)"
proof -
  from p have nan: "nan_ok c" and inv: "ens_inv c cfg s"
    by (simp_all add: pass_def collab_ok_def)
  from inv have len: "length (traj s) = N_traj cfg" "length (score s) = N_traj cfg"
    by (auto elim: ens_invE)
  from u len have u': "u < length (traj s)" "u < length (score s)" by simp_all
  show ?thesis
    unfolding padded_nth [OF u'] using nan T(2) [OF u] by (rule row_inv_pad)
qed

lemma pass_regenerated_row:
  assumes p: "pass c cfg s (Some v) srcs" and T: "0 < T" "max_Nt s \<le> T"
    "\<And>t. t < N_traj cfg \<Longrightarrow> row_inv c T (Nt s ! t) (traj s ! t) (score s ! t)"
    and i: "i < length (idx (Some v) s)"
  shows "row_inv c (T + (new_max c (Some v) s srcs - max_Nt s))
           (new_Nt c (Some v) s srcs ! (idx (Some v) s ! i))
           (fst (merged c (Some v) s srcs) ! (idx (Some v) s ! i))
           (snd (merged c (Some v) s srcs) ! (idx (Some v) s ! i))"
proof -
  let ?ids = "idx (Some v) s"
  let ?t = "?ids ! i"
  let ?src = "srcs ! i"
  let ?r = "restart (Some v) s srcs ! i"
  let ?l = "new_nt c (Some v) s srcs ! i"
  let ?ntr = "new_traj c (Some v) s srcs ! i"
  let ?pd = "padded c (Some v) s srcs"
  let ?T = "T + (new_max c (Some v) s srcs - max_Nt s)"
  from p have nan: "nan_ok c" and inv: "ens_inv c cfg s"
    by (simp_all add: pass_def collab_ok_def)
  from inv have len: "length (traj s) = N_traj cfg" "length (score s) = N_traj cfg"
    and Q: "Q s = map nanmax (score s)"
    by (auto elim: ens_invE)
  from pass_srcs(1) [OF p] i have i': "i < length srcs" by simp
  from i have "?t \<in> set ?ids" by simp
  from pass_idx(1) [OF p this] have tN: "?t < N_traj cfg" .
  from pass_srcs(2) [OF p i'] have sN: "?src < N_traj cfg" by simp
  from pass_restart [OF p i'] obtain q z where q: "Q s ! ?t = Some q"
    and r: "?r < Nt s ! ?src" and z: "score s ! ?src ! ?r = Some z" "q \<le> z"
    by blast
  note rt = pass_padded_row [OF p T(1,3) tN]
  note rs = pass_padded_row [OF p T(1,3) sN]
  from row_invD(3) [OF T(3) [OF sN]] r have rT: "?r < T" by simp
  then have rT': "?r < ?T" by simp
  from sN len have s': "?src < length (traj s)" "?src < length (score s)" by simp_all
  from tN len have t': "?t < length (traj s)" "?t < length (score s)" by simp_all
  have lsr: "length (score s ! ?src) = T" and lst: "length (score s ! ?t) = T"
    using row_invD(2) [OF T(3) [OF sN]] row_invD(2) [OF T(3) [OF tN]] by simp_all
  have zr: "snd ?pd ! ?src ! ?r = Some z"
    using z(1) rT lsr by (simp add: padded_nth(2) [OF s'] nth_append)
  have bound: "x \<le> z" if j: "j < ?T" and x: "snd ?pd ! ?t ! j = Some x" for j x
  proof -
    have jT: "j < T"
    proof (rule ccontr)
      assume "\<not> j < T"
      with j lst have "snd ?pd ! ?t ! j = None"
        by (simp add: padded_nth(2) [OF t'] nth_append)
      with x show False by simp
    qed
    with x lst have "score s ! ?t ! j = Some x"
      by (simp add: padded_nth(2) [OF t'] nth_append)
    with jT lst have mem: "Some x \<in> set (score s ! ?t)"
      by (metis nth_mem)
    from q Q t'(2) have "nanmax (score s ! ?t) = Some q" by simp
    from nanmax_Some [OF this] mem have "x \<le> q" by blast
    with z(2) show ?thesis by simp
  qed
  have l1: "1 \<le> ?l" and l2: "?l \<le> length ?ntr"
    using pass_new_nt(2,3) [OF p i] by simp_all
  have "?r + ?l \<le> new_max c (Some v) s srcs" using pass_new_max [OF p i] .
  also have "\<dots> \<le> ?T" using padded_fits(1) [OF T(2)] .
  finally have l3: "?r + ?l \<le> ?T" .
  from row_inv_spliced [OF nan rt rs rT' zr bound l1 l2 l3]
  show ?thesis
    by (simp add: pass_merged_row [OF p i] pass_new_Nt(2) [OF p i])
qed

text \<open>Both slice assignments of the merge are within the storage and have the length of
  their right-hand sides: the restart index is below the allocated length, the
  continuation has at least one step, and the new natural length fits.\<close>

lemma pass_slices_fit:
  assumes p: "pass c cfg s (Some v) srcs" and i: "i < length (idx (Some v) s)"
  shows "\<exists>T. length (fst (padded c (Some v) s srcs) ! (idx (Some v) s ! i)) = T \<and>
           length (fst (padded c (Some v) s srcs) ! (srcs ! i)) = T \<and>
           length (snd (padded c (Some v) s srcs) ! (idx (Some v) s ! i)) = T \<and>
           length (snd (padded c (Some v) s srcs) ! (srcs ! i)) = T \<and>
           restart (Some v) s srcs ! i < T \<and>
           1 \<le> new_nt c (Some v) s srcs ! i \<and>
           new_nt c (Some v) s srcs ! i \<le> length (new_traj c (Some v) s srcs ! i) \<and>
           restart (Some v) s srcs ! i + new_nt c (Some v) s srcs ! i \<le> T"
proof -
  let ?ids = "idx (Some v) s"
  from p have inv: "ens_inv c cfg s" by (simp add: pass_def)
  from inv obtain T where T: "0 < T" "max_Nt s \<le> T"
    "\<And>t. t < N_traj cfg \<Longrightarrow> row_inv c T (Nt s ! t) (traj s ! t) (score s ! t)"
    by (auto elim: ens_invE)
  let ?T = "T + (new_max c (Some v) s srcs - max_Nt s)"
  from pass_srcs(1) [OF p] i have i': "i < length srcs" by simp
  from i have "?ids ! i \<in> set ?ids" by simp
  from pass_idx(1) [OF p this] have tN: "?ids ! i < N_traj cfg" .
  from pass_srcs(2) [OF p i'] have sN: "srcs ! i < N_traj cfg" by simp
  note rt = row_invD(1,2) [OF pass_padded_row [OF p T(1,3) tN]]
  note rs = row_invD(1,2) [OF pass_padded_row [OF p T(1,3) sN]]
  from pass_restart [OF p i'] have "restart (Some v) s srcs ! i < Nt s ! (srcs ! i)" by blast
  with row_invD(3) [OF T(3) [OF sN]] have r: "restart (Some v) s srcs ! i < ?T" by simp
  have "restart (Some v) s srcs ! i + new_nt c (Some v) s srcs ! i \<le> new_max c (Some v) s srcs"
    using pass_new_max [OF p i] .
  also have "\<dots> \<le> ?T" using padded_fits(1) [OF T(2)] .
  finally have fit: "restart (Some v) s srcs ! i + new_nt c (Some v) s srcs ! i \<le> ?T" .
  from rt rs r fit pass_new_nt(2,3) [OF p i] show ?thesis by blast
qed

lemma ens_inv_regenerate:
  assumes p: "pass c cfg s (Some v) srcs"
  shows "ens_inv c cfg (regenerate c cfg s (Some v) srcs)"
proof -
  let ?s' = "regenerate c cfg s (Some v) srcs"
  let ?ids = "idx (Some v) s"
  from p have inv: "ens_inv c cfg s" by (simp add: pass_def)
  from inv obtain T where T: "0 < T" "max_Nt s \<le> T"
    "\<And>t. t < N_traj cfg \<Longrightarrow> row_inv c T (Nt s ! t) (traj s ! t) (score s ! t)"
    and len: "length (traj s) = N_traj cfg" "length (score s) = N_traj cfg"
    by (auto elim: ens_invE)
  let ?T = "T + (new_max c (Some v) s srcs - max_Nt s)"
  have rows: "row_inv c ?T (Nt ?s' ! u) (traj ?s' ! u) (score ?s' ! u)" if u: "u < N_traj cfg" for u
  proof (cases "u \<in> set ?ids")
    case True
    then obtain i where i: "i < length ?ids" "u = ?ids ! i" by (auto simp: in_set_conv_nth)
    from pass_regenerated_row [OF p T i(1)] i(2) show ?thesis
      by (simp add: regenerate_def)
  next
    case False
    from pass_padded_row [OF p T(1,3) u] show ?thesis
      by (simp add: regenerate_def pass_merged_other [OF False] pass_new_Nt(3) [OF p False])
  qed
  have "0 < ?T" using T(1) by simp
  moreover have "length (traj ?s') = N_traj cfg" "length (score ?s') = N_traj cfg"
    by (simp_all add: regenerate_def length_merged len)
  moreover have "length (Nt ?s') = N_traj cfg"
    using pass_new_Nt(1) [OF p] by (simp add: regenerate_def)
  moreover have "Q ?s' = map nanmax (score ?s')" by (simp add: regenerate_def)
  moreover have "max_Nt ?s' \<le> ?T"
    using padded_fits(2) [OF T(2), of c "Some v" srcs] by (simp add: regenerate_def)
  ultimately show ?thesis
    unfolding ens_inv_def using rows by blast
qed

lemma ams_step_pass:
  assumes "collab_ok c" "1 \<le> nc cfg" "ens_inv c cfg s" "loop_cond cfg s"
    and "ams_step c cfg s = Inr s'"
  obtains v srcs where "pass c cfg s (Some v) srcs" "s' = regenerate c cfg s (Some v) srcs"
proof -
  from assms(5) obtain thr srcs where a: "threshold cfg s = Inr thr"
    "new_ind c thr s = Inr srcs" "idx thr s \<noteq> []" "s' = regenerate c cfg s thr srcs"
    by (rule ams_step_InrE)
  with assms(1-4) have p: "pass c cfg s thr srcs" by (simp add: pass_def)
  then obtain v where "thr = Some v" by (rule pass_thr)
  with p a(4) that show ?thesis by blast
qed

lemma reach_ens_inv:
  assumes "collab_ok c" "1 \<le> nc cfg" "reach c cfg init_state s"
  shows "ens_inv c cfg s"
  using assms(3)
proof (induction rule: reach.induct)
  case (reach_init s)
  with assms(1) show ?case by (rule ens_inv_init)
next
  case (reach_step s s')
  from assms(1,2) reach_step(4,2,3) obtain v srcs where
    "pass c cfg s (Some v) srcs" "s' = regenerate c cfg s (Some v) srcs"
    by (rule ams_step_pass)
  then show ?case using ens_inv_regenerate by simp
qed

subsection \<open>The instance honours every contract\<close>

lemma any_nan_map_option: "any_nan (map (map_option f) x) = any_nan x"
  by (auto simp: any_nan_def image_iff)

lemma demo_path_pad:
  assumes "a \<le> b" "b < length (demo_path x)" "any_nan (demo_path x ! a)"
  shows "any_nan (demo_path x ! b)"
proof -
  define p where "p = (if length x = dimension then x else [Some 0, Some 0])"
  have dp: "demo_path x = [p, map (map_option (\<lambda>v. v + 1)) p, [None, None]]"
    by (simp add: demo_path_def Let_def p_def)
  have pad: "any_nan [None, None]" by (simp add: any_nan_def)
  from assms(2) have "b = 0 \<or> b = 1 \<or> b = 2" unfolding dp by auto
  moreover from assms(1,2) have "a = 0 \<or> a = 1 \<or> a = 2" unfolding dp by auto
  ultimately show ?thesis
    using assms(1,3) pad unfolding dp by (auto simp: any_nan_map_option)
qed

lemma demo_path_start: "\<not> any_nan x \<Longrightarrow> \<not> any_nan (demo_path x ! 0)"
  by (simp add: demo_path_def Let_def any_nan_def)

lemma demo_collab_ok: "collab_ok demo_c"
proof -
  have "gen_pad demo_c"
    unfolding gen_pad_def by (auto simp: demo_c_def intro: demo_path_pad)
  moreover have "gen_start demo_c"
    unfolding gen_start_def using demo_path_start by (auto simp: demo_c_def)
  moreover have "nan_ok demo_c"
    by (simp add: nan_ok_def demo_c_def)
  ultimately show ?thesis
    using demo_gen_ok demo_choice_ok by (simp add: collab_ok_def)
qed

subsection \<open>Clones and survivors\<close>

text \<open>The scores of a regenerated slot up to the restart index are the scores of the
  source.\<close>

lemma spliced_score_prefix:
  assumes rs: "row_inv c T ns src_row src_srow"
    and len: "length row = T" "length srow = T"
    and r: "r < T" "l \<le> length ntr" "r + l \<le> T" "j \<le> r"
  shows "spliced row src_row r l ntr ! j = src_row ! j"
    and "override_row c (spliced row src_row r l ntr)
           (spliced srow src_srow r l (map (comp_score c) ntr)) ! j = src_srow ! j"
proof -
  let ?nsc = "map (comp_score c) ntr"
  let ?R = "spliced row src_row r l ntr"
  let ?W = "spliced srow src_srow r l ?nsc"
  note s = row_invD [OF rs]
  have rl: "r < length src_row" "length row = length src_row" "l \<le> length ntr"
    and rl': "r < length src_srow" "length srow = length src_srow" "l \<le> length ?nsc"
    using r(1,2) len s(1,2) by simp_all
  have lenR: "length ?R = T" using length_spliced [OF rl] r(3) len(1) by simp
  have lenW: "length ?W = T" using length_spliced [OF rl'] r(3) len(2) by simp
  from r(1,4) have jT: "j < T" by simp
  show R: "?R ! j = src_row ! j" using spliced_prefix [OF rl r(4)] .
  have W: "?W ! j = src_srow ! j" using spliced_prefix [OF rl' r(4)] .
  have "override_row c ?R ?W ! j = override c (?R ! j) (?W ! j)"
    using jT lenR lenW by (simp add: override_row_def)
  with R W s(4) [OF jT] show "override_row c ?R ?W ! j = src_srow ! j" by simp
qed

lemma pass_prefix:
  assumes p: "pass c cfg s (Some v) srcs" and i: "i < length (idx (Some v) s)"
    and j: "j \<le> restart (Some v) s srcs ! i"
  shows "fst (merged c (Some v) s srcs) ! (idx (Some v) s ! i) ! j = traj s ! (srcs ! i) ! j"
    and "snd (merged c (Some v) s srcs) ! (idx (Some v) s ! i) ! j = score s ! (srcs ! i) ! j"
    and "fst (merged c (Some v) s srcs) ! (srcs ! i) ! j = traj s ! (srcs ! i) ! j"
    and "snd (merged c (Some v) s srcs) ! (srcs ! i) ! j = score s ! (srcs ! i) ! j"
proof -
  let ?ids = "idx (Some v) s"
  let ?t = "?ids ! i"
  let ?src = "srcs ! i"
  let ?r = "restart (Some v) s srcs ! i"
  let ?l = "new_nt c (Some v) s srcs ! i"
  let ?ntr = "new_traj c (Some v) s srcs ! i"
  let ?pd = "padded c (Some v) s srcs"
  from p have inv: "ens_inv c cfg s" by (simp add: pass_def)
  from inv obtain T where T: "0 < T" "max_Nt s \<le> T"
    "\<And>t. t < N_traj cfg \<Longrightarrow> row_inv c T (Nt s ! t) (traj s ! t) (score s ! t)"
    and len: "length (traj s) = N_traj cfg" "length (score s) = N_traj cfg"
    by (auto elim: ens_invE)
  let ?T = "T + (new_max c (Some v) s srcs - max_Nt s)"
  from pass_srcs(1) [OF p] i have i': "i < length srcs" by simp
  from i have "?t \<in> set ?ids" by simp
  from pass_idx(1) [OF p this] have tN: "?t < N_traj cfg" .
  from pass_srcs(2) [OF p i'] have sN: "?src < N_traj cfg" and nin: "?src \<notin> set ?ids"
    by simp_all
  from pass_restart [OF p i'] have r: "?r < Nt s ! ?src" by blast
  from row_invD(3) [OF T(3) [OF sN]] r have rT: "?r < T" by simp
  with j have jT: "j < T" by simp
  note rt = pass_padded_row [OF p T(1,3) tN]
  note rs = pass_padded_row [OF p T(1,3) sN]
  from sN len have s': "?src < length (traj s)" "?src < length (score s)" by simp_all
  have ls: "length (traj s ! ?src) = T" "length (score s ! ?src) = T"
    using row_invD(1,2) [OF T(3) [OF sN]] by simp_all
  have old: "fst ?pd ! ?src ! j = traj s ! ?src ! j" "snd ?pd ! ?src ! j = score s ! ?src ! j"
    using jT ls by (simp_all add: padded_nth [OF s'] nth_append)
  have l2: "?l \<le> length ?ntr" using pass_new_nt(3) [OF p i] .
  have "?r + ?l \<le> new_max c (Some v) s srcs" using pass_new_max [OF p i] .
  also have "\<dots> \<le> ?T" using padded_fits(1) [OF T(2)] .
  finally have l3: "?r + ?l \<le> ?T" .
  have rT': "?r < ?T" using rT by simp
  note sp = spliced_score_prefix [OF rs row_invD(1,2) [OF rt] rT' l2 l3 j]
  from sp(1) old(1) show "fst (merged c (Some v) s srcs) ! ?t ! j = traj s ! ?src ! j"
    by (simp add: pass_merged_row(1) [OF p i])
  from sp(2) old(2) show "snd (merged c (Some v) s srcs) ! ?t ! j = score s ! ?src ! j"
    by (simp add: pass_merged_row [OF p i])
  from old(1) show "fst (merged c (Some v) s srcs) ! ?src ! j = traj s ! ?src ! j"
    by (simp add: pass_merged_other [OF nin])
  from old(2) show "snd (merged c (Some v) s srcs) ! ?src ! j = score s ! ?src ! j"
    by (simp add: pass_merged_other [OF nin])
qed

text \<open>A slot that is not selected keeps its entries and its natural length.\<close>

lemma pass_survivor:
  assumes p: "pass c cfg s (Some v) srcs" and u: "u < N_traj cfg" "u \<notin> set (idx (Some v) s)"
    and j: "j < length (traj s ! u)"
  shows "fst (merged c (Some v) s srcs) ! u ! j = traj s ! u ! j"
    and "snd (merged c (Some v) s srcs) ! u ! j = score s ! u ! j"
proof -
  from p have inv: "ens_inv c cfg s" by (simp add: pass_def)
  from inv obtain T where T0: "0 < T" "max_Nt s \<le> T"
    and T: "\<And>t. t < N_traj cfg \<Longrightarrow> row_inv c T (Nt s ! t) (traj s ! t) (score s ! t)"
    and len: "length (traj s) = N_traj cfg" "length (score s) = N_traj cfg"
    by (auto elim: ens_invE)
  from u(1) len have u': "u < length (traj s)" "u < length (score s)" by simp_all
  have "length (score s ! u) = length (traj s ! u)"
    using row_invD(1,2) [OF T [OF u(1)]] by simp
  with j show "fst (merged c (Some v) s srcs) ! u ! j = traj s ! u ! j"
    and "snd (merged c (Some v) s srcs) ! u ! j = score s ! u ! j"
    by (simp_all add: pass_merged_other [OF u(2)] padded_nth [OF u'] nth_append)
qed

subsection \<open>Claims about a pass of the loop\<close>

lemma reach_pass:
  assumes "collab_ok c" "1 \<le> nc cfg" "reach c cfg init_state s" "loop_cond cfg s"
    and "ams_step c cfg s = Inr s'"
  obtains v srcs where "pass c cfg s (Some v) srcs" "s' = regenerate c cfg s (Some v) srcs"
    "threshold cfg s = Inr (Some v)" "new_ind c (Some v) s = Inr srcs"
proof -
  have "ens_inv c cfg s" using assms(1-3) by (rule reach_ens_inv)
  with assms(1,2) obtain v srcs where
    p: "pass c cfg s (Some v) srcs" "s' = regenerate c cfg s (Some v) srcs"
    using assms(4,5) by (rule ams_step_pass)
  from p(1) have "threshold cfg s = Inr (Some v)" "new_ind c (Some v) s = Inr srcs"
    by (simp_all add: pass_def)
  with p that show ?thesis by blast
qed

lemma demo_reach0: "reach demo_c demo_cfg demo_init demo_s0"
  using demo_init_eq by (rule reach_init)

lemma demo_nc: "1 \<le> nc demo_cfg"
  by (simp add: demo_cfg_def)

text \<open>
  C6. In every pass (collaborators honouring their contracts, \<open>1 \<le> nc\<close>), for each
  discarded trajectory \<open>idx[i]\<close> with level \<open>q\<close> and its clone source \<open>srcs[i]\<close>: the
  restart index is a step where the source's score is at least \<open>q\<close> (so such a step
  exists), every earlier step of the source has a score below \<open>q\<close> or no score (so it is
  the first one), the index lies before the source's natural length, which is within
  the allocated length, and the state taken there, the initial state of the clone, has
  no undefined component.
\<close>

theorem restart_is_first_index_reaching_level:
  assumes "collab_ok c" and "1 \<le> nc cfg" and "reach c cfg init_state s"
    and "loop_cond cfg s" and "ams_step c cfg s = Inr s'"
  shows "\<exists>v srcs. threshold cfg s = Inr (Some v) \<and> new_ind c (Some v) s = Inr srcs \<and>
     s' = regenerate c cfg s (Some v) srcs \<and> length srcs = length (idx (Some v) s) \<and>
     (\<forall>i < length (idx (Some v) s). \<exists>q z.
        Q s ! (idx (Some v) s ! i) = Some q \<and>
        score s ! (srcs ! i) ! (restart (Some v) s srcs ! i) = Some z \<and> q \<le> z \<and>
        (\<forall>j < restart (Some v) s srcs ! i. \<forall>y. score s ! (srcs ! i) ! j = Some y \<longrightarrow> y < q) \<and>
        restart (Some v) s srcs ! i < Nt s ! (srcs ! i) \<and>
        Nt s ! (srcs ! i) \<le> length (traj s ! (srcs ! i)) \<and>
        \<not> any_nan (traj s ! (srcs ! i) ! (restart (Some v) s srcs ! i)) \<and>
        init_clone s srcs (restart (Some v) s srcs) ! i =
          traj s ! (srcs ! i) ! (restart (Some v) s srcs ! i))"
proof -
  from assms obtain v srcs where p: "pass c cfg s (Some v) srcs"
    and s': "s' = regenerate c cfg s (Some v) srcs"
    and thr: "threshold cfg s = Inr (Some v)" and ni: "new_ind c (Some v) s = Inr srcs"
    by (rule reach_pass)
  let ?ids = "idx (Some v) s"
  let ?rs = "restart (Some v) s srcs"
  from pass_srcs(1) [OF p] have len: "length srcs = length ?ids" .
  from p have inv: "ens_inv c cfg s" by (simp add: pass_def)
  have "\<exists>q z. Q s ! (?ids ! i) = Some q \<and>
        score s ! (srcs ! i) ! (?rs ! i) = Some z \<and> q \<le> z \<and>
        (\<forall>j < ?rs ! i. \<forall>y. score s ! (srcs ! i) ! j = Some y \<longrightarrow> y < q) \<and>
        ?rs ! i < Nt s ! (srcs ! i) \<and>
        Nt s ! (srcs ! i) \<le> length (traj s ! (srcs ! i)) \<and>
        \<not> any_nan (traj s ! (srcs ! i) ! (?rs ! i)) \<and>
        init_clone s srcs ?rs ! i = traj s ! (srcs ! i) ! (?rs ! i)"
    if i: "i < length ?ids" for i
  proof -
    from i len have i': "i < length srcs" by simp
    from pass_restart [OF p i'] obtain q z where q: "Q s ! (?ids ! i) = Some q"
      and r: "?rs ! i < Nt s ! (srcs ! i)"
      and z: "score s ! (srcs ! i) ! (?rs ! i) = Some z" "q \<le> z"
      and first: "\<forall>j < ?rs ! i. \<not> fge (score s ! (srcs ! i) ! j) (Some q)"
      by blast
    from pass_srcs(2) [OF p i'] have sN: "srcs ! i < N_traj cfg" by simp
    from inv sN obtain T where
      row: "row_inv c T (Nt s ! (srcs ! i)) (traj s ! (srcs ! i)) (score s ! (srcs ! i))"
      by (auto elim!: ens_invE)
    note rw = row_invD [OF row]
    from rw(3) r have rT: "?rs ! i < T" by simp
    from rw(5) [OF rT] z(1) have def: "\<not> any_nan (traj s ! (srcs ! i) ! (?rs ! i))" by auto
    from rw(1,3) have nl: "Nt s ! (srcs ! i) \<le> length (traj s ! (srcs ! i))" by simp
    have ic: "init_clone s srcs ?rs ! i = traj s ! (srcs ! i) ! (?rs ! i)"
      using init_clone_nth [OF i' length_restart [OF len]] .
    from first have "\<forall>j < ?rs ! i. \<forall>y. score s ! (srcs ! i) ! j = Some y \<longrightarrow> y < q"
      by (auto simp: not_le)
    with q r z def nl ic show ?thesis by blast
  qed
  with thr ni s' len show ?thesis by blast
qed

theorem restart_is_first_index_reaching_level_witness:
  "collab_ok demo_c \<and> 1 \<le> nc demo_cfg \<and> reach demo_c demo_cfg demo_init demo_s0 \<and>
   loop_cond demo_cfg demo_s0 \<and> ams_step demo_c demo_cfg demo_s0 = Inr demo_s1 \<and>
   (\<exists>v srcs. threshold demo_cfg demo_s0 = Inr (Some v) \<and> new_ind demo_c (Some v) demo_s0 = Inr srcs \<and>
     demo_s1 = regenerate demo_c demo_cfg demo_s0 (Some v) srcs \<and>
     length srcs = length (idx (Some v) demo_s0) \<and>
     (\<forall>i < length (idx (Some v) demo_s0). \<exists>q z.
        Q demo_s0 ! (idx (Some v) demo_s0 ! i) = Some q \<and>
        score demo_s0 ! (srcs ! i) ! (restart (Some v) demo_s0 srcs ! i) = Some z \<and> q \<le> z \<and>
        (\<forall>j < restart (Some v) demo_s0 srcs ! i. \<forall>y. score demo_s0 ! (srcs ! i) ! j = Some y \<longrightarrow> y < q) \<and>
        restart (Some v) demo_s0 srcs ! i < Nt demo_s0 ! (srcs ! i) \<and>
        Nt demo_s0 ! (srcs ! i) \<le> length (traj demo_s0 ! (srcs ! i)) \<and>
        \<not> any_nan (traj demo_s0 ! (srcs ! i) ! (restart (Some v) demo_s0 srcs ! i)) \<and>
        init_clone demo_s0 srcs (restart (Some v) demo_s0 srcs) ! i =
          traj demo_s0 ! (srcs ! i) ! (restart (Some v) demo_s0 srcs ! i)))"
  using restart_is_first_index_reaching_level
    [OF demo_collab_ok demo_nc demo_reach0 demo_cond0 demo_step_eq]
    demo_collab_ok demo_nc demo_reach0 demo_cond0 demo_step_eq
  by (intro conjI)

text \<open>
  C7. In every pass, after the merge, the states and the scores of the regenerated
  trajectory \<open>idx[i]\<close> at every step from 0 up to and including its restart index are
  those of its source \<open>srcs[i]\<close>, as the source was before the merge and as it is after
  it.
\<close>

theorem clone_prefix_equals_source:
  assumes "collab_ok c" and "1 \<le> nc cfg" and "reach c cfg init_state s"
    and "loop_cond cfg s" and "ams_step c cfg s = Inr s'"
  shows "\<exists>v srcs. threshold cfg s = Inr (Some v) \<and> new_ind c (Some v) s = Inr srcs \<and>
     s' = regenerate c cfg s (Some v) srcs \<and> length srcs = length (idx (Some v) s) \<and>
     (\<forall>i < length (idx (Some v) s). \<forall>j \<le> restart (Some v) s srcs ! i.
        traj s' ! (idx (Some v) s ! i) ! j = traj s ! (srcs ! i) ! j \<and>
        score s' ! (idx (Some v) s ! i) ! j = score s ! (srcs ! i) ! j \<and>
        traj s' ! (srcs ! i) ! j = traj s ! (srcs ! i) ! j \<and>
        score s' ! (srcs ! i) ! j = score s ! (srcs ! i) ! j)"
proof -
  from assms obtain v srcs where p: "pass c cfg s (Some v) srcs"
    and s': "s' = regenerate c cfg s (Some v) srcs"
    and thr: "threshold cfg s = Inr (Some v)" and ni: "new_ind c (Some v) s = Inr srcs"
    by (rule reach_pass)
  have tr: "traj s' = fst (merged c (Some v) s srcs)"
    and sc: "score s' = snd (merged c (Some v) s srcs)"
    by (simp_all add: s' regenerate_def)
  from pass_srcs(1) [OF p] have len: "length srcs = length (idx (Some v) s)" .
  from pass_prefix [OF p] have
    "\<forall>i < length (idx (Some v) s). \<forall>j \<le> restart (Some v) s srcs ! i.
        traj s' ! (idx (Some v) s ! i) ! j = traj s ! (srcs ! i) ! j \<and>
        score s' ! (idx (Some v) s ! i) ! j = score s ! (srcs ! i) ! j \<and>
        traj s' ! (srcs ! i) ! j = traj s ! (srcs ! i) ! j \<and>
        score s' ! (srcs ! i) ! j = score s ! (srcs ! i) ! j"
    unfolding tr sc by blast
  with thr ni s' len show ?thesis by blast
qed

theorem clone_prefix_equals_source_witness:
  "collab_ok demo_c \<and> 1 \<le> nc demo_cfg \<and> reach demo_c demo_cfg demo_init demo_s0 \<and>
   loop_cond demo_cfg demo_s0 \<and> ams_step demo_c demo_cfg demo_s0 = Inr demo_s1 \<and>
   (\<exists>v srcs. threshold demo_cfg demo_s0 = Inr (Some v) \<and> new_ind demo_c (Some v) demo_s0 = Inr srcs \<and>
     demo_s1 = regenerate demo_c demo_cfg demo_s0 (Some v) srcs \<and>
     length srcs = length (idx (Some v) demo_s0) \<and>
     (\<forall>i < length (idx (Some v) demo_s0). \<forall>j \<le> restart (Some v) demo_s0 srcs ! i.
        traj demo_s1 ! (idx (Some v) demo_s0 ! i) ! j = traj demo_s0 ! (srcs ! i) ! j \<and>
        score demo_s1 ! (idx (Some v) demo_s0 ! i) ! j = score demo_s0 ! (srcs ! i) ! j \<and>
        traj demo_s1 ! (srcs ! i) ! j = traj demo_s0 ! (srcs ! i) ! j \<and>
        score demo_s1 ! (srcs ! i) ! j = score demo_s0 ! (srcs ! i) ! j))"
  using clone_prefix_equals_source
    [OF demo_collab_ok demo_nc demo_reach0 demo_cond0 demo_step_eq]
    demo_collab_ok demo_nc demo_reach0 demo_cond0 demo_step_eq
  by (intro conjI)

subsection \<open>Ties at the threshold\<close>

text \<open>
  C3 says that a trajectory whose level equals the threshold survives. In the instance
  the threshold of the first pass is 1/2, trajectory 0 has level 1/2, is selected and
  is overwritten by a clone of trajectory 1.
\<close>

theorem ties_at_threshold_are_selected_counterexample:
  "ams_init demo_c demo_cfg demo_init = Inr demo_s0 \<and>
   loop_cond demo_cfg demo_s0 \<and>
   threshold demo_cfg demo_s0 = Inr (Some (1 / 2)) \<and>
   Q demo_s0 ! 0 = Some (1 / 2) \<and>
   idx (Some (1 / 2)) demo_s0 = [0] \<and>
   ams_step demo_c demo_cfg demo_s0 = Inr demo_s1 \<and>
   traj demo_s0 ! 0 = [[Some 0, Some 0], [Some 1, Some 1], [None, None]] \<and>
   traj demo_s1 ! 0 = [[Some 1, Some 0], [Some 2, Some 1], [None, None]]"
  by code_simp

text \<open>
  C3, amended. In every pass the trajectories discarded and regenerated are exactly
  those whose level is at most the threshold, so every trajectory whose level equals
  the threshold is discarded; each of them gets the natural length restart index plus
  length of its continuation. The trajectories that are not selected (level above the
  threshold, or no level) keep their natural length and all their entries.
\<close>

theorem selected_are_at_or_below_threshold:
  assumes "collab_ok c" and "1 \<le> nc cfg" and "reach c cfg init_state s"
    and "loop_cond cfg s" and "ams_step c cfg s = Inr s'"
  shows "\<exists>v srcs. threshold cfg s = Inr (Some v) \<and> new_ind c (Some v) s = Inr srcs \<and>
     s' = regenerate c cfg s (Some v) srcs \<and>
     (\<forall>t < N_traj cfg. (t \<in> set (idx (Some v) s)) = (\<exists>q. Q s ! t = Some q \<and> q \<le> v)) \<and>
     (\<forall>t < N_traj cfg. Q s ! t = Some v \<longrightarrow> t \<in> set (idx (Some v) s)) \<and>
     (\<forall>i < length (idx (Some v) s).
        Nt s' ! (idx (Some v) s ! i) =
          restart (Some v) s srcs ! i + new_nt c (Some v) s srcs ! i) \<and>
     (\<forall>t < N_traj cfg. t \<notin> set (idx (Some v) s) \<longrightarrow>
        Nt s' ! t = Nt s ! t \<and>
        (\<forall>j < length (traj s ! t).
           traj s' ! t ! j = traj s ! t ! j \<and> score s' ! t ! j = score s ! t ! j))"
proof -
  from assms obtain v srcs where p: "pass c cfg s (Some v) srcs"
    and s': "s' = regenerate c cfg s (Some v) srcs"
    and thr: "threshold cfg s = Inr (Some v)" and ni: "new_ind c (Some v) s = Inr srcs"
    by (rule reach_pass)
  have tr: "traj s' = fst (merged c (Some v) s srcs)"
    and sc: "score s' = snd (merged c (Some v) s srcs)"
    and nt: "Nt s' = new_Nt c (Some v) s srcs"
    by (simp_all add: s' regenerate_def)
  from p have inv: "ens_inv c cfg s" by (simp add: pass_def)
  have lq: "length (Q s) = N_traj cfg" using inv by (rule ens_inv_length_Q)
  have a: "\<forall>t < N_traj cfg. (t \<in> set (idx (Some v) s)) = (\<exists>q. Q s ! t = Some q \<and> q \<le> v)"
    using lq by (simp add: set_idx fle_Some_iff)
  then have b: "\<forall>t < N_traj cfg. Q s ! t = Some v \<longrightarrow> t \<in> set (idx (Some v) s)"
    by simp
  have c: "\<forall>i < length (idx (Some v) s).
        Nt s' ! (idx (Some v) s ! i) = restart (Some v) s srcs ! i + new_nt c (Some v) s srcs ! i"
    unfolding nt using pass_new_Nt(2) [OF p] by blast
  have d: "\<forall>t < N_traj cfg. t \<notin> set (idx (Some v) s) \<longrightarrow>
        Nt s' ! t = Nt s ! t \<and>
        (\<forall>j < length (traj s ! t).
           traj s' ! t ! j = traj s ! t ! j \<and> score s' ! t ! j = score s ! t ! j)"
    unfolding tr sc nt using pass_survivor [OF p] pass_new_Nt(3) [OF p] by blast
  from thr ni s' a b c d show ?thesis by blast
qed

theorem selected_are_at_or_below_threshold_witness:
  "collab_ok demo_c \<and> 1 \<le> nc demo_cfg \<and> reach demo_c demo_cfg demo_init demo_s0 \<and>
   loop_cond demo_cfg demo_s0 \<and> ams_step demo_c demo_cfg demo_s0 = Inr demo_s1 \<and>
   (\<exists>v srcs. threshold demo_cfg demo_s0 = Inr (Some v) \<and> new_ind demo_c (Some v) demo_s0 = Inr srcs \<and>
     demo_s1 = regenerate demo_c demo_cfg demo_s0 (Some v) srcs \<and>
     (\<forall>t < N_traj demo_cfg. (t \<in> set (idx (Some v) demo_s0)) = (\<exists>q. Q demo_s0 ! t = Some q \<and> q \<le> v)) \<and>
     (\<forall>t < N_traj demo_cfg. Q demo_s0 ! t = Some v \<longrightarrow> t \<in> set (idx (Some v) demo_s0)) \<and>
     (\<forall>i < length (idx (Some v) demo_s0).
        Nt demo_s1 ! (idx (Some v) demo_s0 ! i) =
          restart (Some v) demo_s0 srcs ! i + new_nt demo_c (Some v) demo_s0 srcs ! i) \<and>
     (\<forall>t < N_traj demo_cfg. t \<notin> set (idx (Some v) demo_s0) \<longrightarrow>
        Nt demo_s1 ! t = Nt demo_s0 ! t \<and>
        (\<forall>j < length (traj demo_s0 ! t).
           traj demo_s1 ! t ! j = traj demo_s0 ! t ! j \<and> score demo_s1 ! t ! j = score demo_s0 ! t ! j)))"
  using selected_are_at_or_below_threshold
    [OF demo_collab_ok demo_nc demo_reach0 demo_cond0 demo_step_eq]
    demo_collab_ok demo_nc demo_reach0 demo_cond0 demo_step_eq
  by (intro conjI)

subsection \<open>Entries beyond the natural length\<close>

text \<open>
  C8. After every merge the entries of a trajectory at or beyond its natural length are
  the undefined marker. The merge of the source writes the steps below the new natural
  length and leaves the rest of the slot as it was: in the second instance trajectory 0
  had four defined steps, is regenerated with natural length 2, and its steps 2 and 3
  still hold the states and scores of the discarded trajectory.
\<close>

theorem stale_entries_beyond_natural_length:
  "ams_init stale_c demo_cfg demo_init = Inr stale_s0 \<and>
   loop_cond demo_cfg stale_s0 \<and>
   ams_step stale_c demo_cfg stale_s0 = Inr stale_s1 \<and>
   Nt stale_s1 ! 0 = 2 \<and>
   traj stale_s1 ! 0 ! 2 = [Some (1 / 2), Some (1 / 2)] \<and>
   score stale_s1 ! 0 ! 2 = Some (1 / 4) \<and>
   traj stale_s1 ! 0 ! 2 = traj stale_s0 ! 0 ! 2"
  by code_simp

text \<open>The collaborators of the second instance honour every contract.\<close>

lemma slow_path_shape:
  "length (slow_path x) = 4 \<and> list_all (\<lambda>y. length y = 2) (slow_path x)"
  by (simp add: slow_path_def Let_def dimension_def)

lemma slow_path_pad:
  assumes "a \<le> b" "b < length (slow_path x)" "any_nan (slow_path x ! a)"
  shows "any_nan (slow_path x ! b)"
proof -
  define p where "p = (if length x = dimension then x else [Some 0, Some 0])"
  define q where "q = map (map_option (\<lambda>v. v + 1 / 2)) p"
  have dp: "slow_path x = [p, q, q, q]"
    by (simp add: slow_path_def Let_def p_def q_def)
  have pq: "any_nan q = any_nan p" by (simp add: q_def any_nan_map_option)
  from assms(2) have "b = 0 \<or> b = 1 \<or> b = 2 \<or> b = 3" unfolding dp by auto
  moreover from assms(1,2) have "a = 0 \<or> a = 1 \<or> a = 2 \<or> a = 3" unfolding dp by auto
  ultimately show ?thesis
    using assms(1,3) pq unfolding dp by auto
qed

lemma slow_path_start: "\<not> any_nan x \<Longrightarrow> \<not> any_nan (slow_path x ! 0)"
  by (simp add: slow_path_def Let_def any_nan_def)

lemma demo_path_padded_pad:
  assumes "a \<le> b" "b < length (demo_path x @ [[None, None]])"
    "any_nan ((demo_path x @ [[None, None]]) ! a)"
  shows "any_nan ((demo_path x @ [[None, None]]) ! b)"
proof (cases "b < 3")
  case True
  with assms demo_path_pad [of a b x] show ?thesis
    using demo_path_shape [of x] by (simp add: nth_append)
next
  case False
  with assms(2) have "b = 3" using demo_path_shape [of x] by simp
  then show ?thesis using demo_path_shape [of x] by (simp add: nth_append any_nan_def)
qed

lemma stale_collab_ok: "collab_ok stale_c"
proof -
  have sel: "comp_score stale_c = comp_score demo_c" "is_on stale_c = is_on demo_c"
    "is_off stale_c = is_off demo_c" "rng_choice stale_c = rng_choice demo_c"
    by (simp_all add: stale_c_def)
  have ct: "comp_traj stale_c j n inits =
      map (\<lambda>i. let x = (if i < length inits then inits ! i else [])
                 in if j = 0 then (if i = 0 then slow_path x else demo_path x @ [[None, None]])
                    else demo_path x) [0..<n]" for j n inits
    by (simp add: stale_c_def)
  have g: "gen_ok stale_c"
    unfolding gen_ok_def
  proof (intro allI)
    fix j n inits
    show "\<exists>T>0. rect n T (comp_traj stale_c j n inits)"
    proof (cases "j = 0")
      case True
      have "rect n 4 (comp_traj stale_c j n inits)"
        using True slow_path_shape demo_path_shape
        by (auto simp: ct rect_def dimension_def list_all_iff Let_def)
      then show ?thesis by (intro exI [of _ 4]) simp
    next
      case False
      have "rect n 3 (comp_traj stale_c j n inits)"
        using False demo_path_shape
        by (simp add: ct rect_def dimension_def list_all_iff Let_def)
      then show ?thesis by (intro exI [of _ 3]) simp
    qed
  qed
  have gp: "gen_pad stale_c"
    unfolding gen_pad_def
    by (auto simp: ct Let_def intro: demo_path_pad slow_path_pad demo_path_padded_pad
        split: if_splits)
  have gs: "gen_start stale_c"
    unfolding gen_start_def using demo_path_start slow_path_start demo_path_shape
    by (auto simp: ct Let_def nth_append)
  have ch: "choice_ok stale_c"
    using demo_choice_ok by (simp add: choice_ok_def sel)
  have "nan_ok demo_c" using demo_collab_ok by (simp add: collab_ok_def)
  then have nk: "nan_ok stale_c" by (simp add: nan_ok_def sel)
  from g gp gs ch nk show ?thesis by (simp add: collab_ok_def)
qed

subsection \<open>The level is attained before the natural length\<close>

lemma nanmax_None_iff: "nanmax xs = None \<longleftrightarrow> (\<forall>u. Some u \<notin> set xs)"
proof -
  have "nanmax xs = None \<longleftrightarrow> defined_vals xs = []"
    by (simp add: nanmax_def split: list.splits)
  also have "\<dots> \<longleftrightarrow> set (defined_vals xs) = {}" by simp
  also have "\<dots> \<longleftrightarrow> (\<forall>u. Some u \<notin> set xs)" by (auto simp: set_defined_vals)
  finally show ?thesis .
qed

lemma nanmax_eqI:
  assumes "Some m \<in> set xs" "\<And>u. Some u \<in> set xs \<Longrightarrow> u \<le> m"
  shows "nanmax xs = Some m"
proof -
  from assms(1) have "nanmax xs \<noteq> None" by (auto simp: nanmax_None_iff)
  then obtain m' where m': "nanmax xs = Some m'" by auto
  from nanmax_Some [OF m'] assms have "m' \<le> m" "m \<le> m'" by auto
  with m' show ?thesis by simp
qed

text \<open>The maximum over a row is attained before its natural length.\<close>

lemma nanmax_take:
  assumes row: "row_inv c T n row srow"
  shows "nanmax srow = nanmax (take n srow)"
proof (cases "nanmax srow")
  case None
  then have "\<forall>u. Some u \<notin> set srow" by (simp add: nanmax_None_iff)
  then have "\<forall>u. Some u \<notin> set (take n srow)" by (blast dest: in_set_takeD)
  then have "nanmax (take n srow) = None" by (simp add: nanmax_None_iff)
  with None show ?thesis by simp
next
  case (Some m)
  note r = row_invD [OF row]
  from nanmax_Some [OF Some] have m: "Some m \<in> set srow"
    and ub: "\<And>u. Some u \<in> set srow \<Longrightarrow> u \<le> m" by blast+
  from m r(2) obtain j where j: "j < T" "srow ! j = Some m" by (auto simp: in_set_conv_nth)
  from r(6) [OF j] obtain j' x' where j': "j' < n" "srow ! j' = Some x'" "m \<le> x'" by blast
  from j'(1) r(2,3) have jl: "j' < length srow" by simp
  then have "Some x' \<in> set srow" using j'(2) by (metis nth_mem)
  from ub [OF this] j'(3) have "x' = m" by simp
  have "take n srow ! j' = Some m" using j'(1,2) \<open>x' = m\<close> by simp
  moreover have "j' < length (take n srow)" using j'(1) jl by simp
  ultimately have "Some m \<in> set (take n srow)" by (metis nth_mem)
  moreover have "u \<le> m" if "Some u \<in> set (take n srow)" for u
    using that ub by (blast dest: in_set_takeD)
  ultimately have "nanmax (take n srow) = Some m" by (rule nanmax_eqI)
  with Some show ?thesis by simp
qed

text \<open>
  In every ensemble reached by the loop the level \<open>Q\<close> of a trajectory is the maximum
  of its scores below its natural length, whatever the slot holds beyond it.
\<close>

theorem level_is_maximum_over_defined_prefix:
  assumes "collab_ok c" and "1 \<le> nc cfg" and "reach c cfg init_state s"
    and "t < N_traj cfg"
  shows "Q s ! t = nanmax (take (Nt s ! t) (score s ! t))"
proof -
  have "ens_inv c cfg s" using assms(1-3) by (rule reach_ens_inv)
  then obtain T where T0: "0 < T" "max_Nt s \<le> T"
    and T: "\<And>t. t < N_traj cfg \<Longrightarrow> row_inv c T (Nt s ! t) (traj s ! t) (score s ! t)"
    and len: "length (score s) = N_traj cfg" and Q: "Q s = map nanmax (score s)"
    by (auto elim: ens_invE)
  from Q len assms(4) have "Q s ! t = nanmax (score s ! t)" by simp
  with nanmax_take [OF T [OF assms(4)]] show ?thesis by simp
qed

lemma stale_reach1: "reach stale_c demo_cfg demo_init stale_s1"
proof -
  have i: "ams_init stale_c demo_cfg demo_init = Inr stale_s0" by code_simp
  have c: "loop_cond demo_cfg stale_s0" by code_simp
  have s: "ams_step stale_c demo_cfg stale_s0 = Inr stale_s1" by code_simp
  from reach_init [OF i] c s show ?thesis by (rule reach_step)
qed

theorem level_is_maximum_over_defined_prefix_witness:
  "collab_ok stale_c \<and> 1 \<le> nc demo_cfg \<and> reach stale_c demo_cfg demo_init stale_s1 \<and>
   (0::nat) < N_traj demo_cfg \<and>
   Q stale_s1 ! 0 = nanmax (take (Nt stale_s1 ! 0) (score stale_s1 ! 0))"
proof -
  have h: "(0::nat) < N_traj demo_cfg" by (simp add: demo_cfg_def)
  show ?thesis
    using level_is_maximum_over_defined_prefix [OF stale_collab_ok demo_nc stale_reach1 h]
      stale_collab_ok demo_nc stale_reach1 h
    by (intro conjI)
qed


subsection \<open>Natural lengths of trajectories that start defined\<close>

lemma argmax_bool_none: "\<forall>j < length bs. \<not> bs ! j \<Longrightarrow> argmax_bool bs = 0"
proof (cases "first_true bs")
  case None
  then show ?thesis by (simp add: argmax_bool_def)
next
  case (Some i)
  assume "\<forall>j < length bs. \<not> bs ! j"
  with first_true_Some [OF Some] show ?thesis by blast
qed

lemma Nt_agree:
  assumes "tr \<noteq> []" and "\<not> any_nan (tr ! 0)"
  shows "Nt_initial tr = Nt_regen tr"
    and "Nt_regen tr \<le> length tr"
    and "\<forall>j < Nt_regen tr. \<not> any_nan (tr ! j)"
    and "Nt_regen tr < length tr \<longrightarrow> any_nan (tr ! Nt_regen tr)"
proof -
  let ?bs = "map any_nan tr"
  show le: "Nt_regen tr \<le> length tr" using Nt_regen_bounds(2) [OF assms] .
  show eq: "Nt_initial tr = Nt_regen tr"
  proof (cases "list_all (\<lambda>x. \<not> any_nan x) tr")
    case True
    then have "\<forall>j < length ?bs. \<not> ?bs ! j" by (simp add: list_all_length)
    then have "argmax_bool ?bs = 0" by (rule argmax_bool_none)
    with True show ?thesis by (simp add: Nt_initial_def Nt_regen_def)
  next
    case False
    from Nt_regen_bounds(1) [OF assms] False have "argmax_bool ?bs \<noteq> 0"
      by (simp add: Nt_regen_def)
    with False show ?thesis by (simp add: Nt_initial_def Nt_regen_def Let_def)
  qed
  show "\<forall>j < Nt_regen tr. \<not> any_nan (tr ! j)"
  proof (cases "list_all (\<lambda>x. \<not> any_nan x) tr")
    case True
    then show ?thesis by (simp add: Nt_regen_def list_all_length)
  next
    case False
    then have r: "Nt_regen tr = argmax_bool ?bs" by (simp add: Nt_regen_def)
    from Nt_regen_bounds(1) [OF assms] r have "0 < argmax_bool ?bs" by simp
    from argmax_bool_pos [OF this] have "\<forall>i < argmax_bool ?bs. \<not> ?bs ! i"
      and "argmax_bool ?bs < length ?bs" by blast+
    then show ?thesis unfolding r by simp
  qed
  show "Nt_regen tr < length tr \<longrightarrow> any_nan (tr ! Nt_regen tr)"
  proof (cases "list_all (\<lambda>x. \<not> any_nan x) tr")
    case True
    then show ?thesis by (simp add: Nt_regen_def)
  next
    case False
    then have r: "Nt_regen tr = argmax_bool ?bs" by (simp add: Nt_regen_def)
    from Nt_regen_bounds(1) [OF assms] r have "0 < argmax_bool ?bs" by simp
    from argmax_bool_pos [OF this] have "?bs ! argmax_bool ?bs"
      and "argmax_bool ?bs < length ?bs" by blast+
    then show ?thesis unfolding r by simp
  qed
qed

text \<open>
  On a trajectory whose first step is defined, lines 97-98 and lines 127-128 give the
  same natural length: the index of the first step with an undefined component, or the
  allocated length when there is none.
\<close>

theorem natural_lengths_agree_on_defined_start:
  assumes "tr \<noteq> []" and "\<not> any_nan (tr ! 0)"
  shows "Nt_initial tr = Nt_regen tr \<and> Nt_regen tr \<le> length tr \<and>
         (\<forall>j < Nt_regen tr. \<not> any_nan (tr ! j)) \<and>
         (Nt_regen tr < length tr \<longrightarrow> any_nan (tr ! Nt_regen tr))"
  using Nt_agree [OF assms] by blast

theorem natural_lengths_agree_on_defined_start_witness:
  "[[Some 1, Some 0], [None, None :: fl]] \<noteq> [] \<and>
   \<not> any_nan ([[Some 1, Some 0], [None, None]] ! 0) \<and>
   Nt_initial [[Some 1, Some 0], [None, None]] = Nt_regen [[Some 1, Some 0], [None, None]] \<and>
   Nt_regen [[Some 1, Some 0], [None, None]] = 1"
proof -
  have h1: "[[Some 1, Some 0], [None, None :: fl]] \<noteq> []" by simp
  have h2: "\<not> any_nan ([[Some 1, Some 0], [None, None]] ! 0)" by (simp add: any_nan_def)
  have v: "Nt_regen [[Some 1, Some 0], [None, None]] = 1" by code_simp
  show ?thesis
    using natural_lengths_agree_on_defined_start [OF h1 h2] h1 h2 v by (intro conjI) simp_all
qed

end
